theory Spec2Isabelle
  imports Complex_Main "HOL-Library.AList" "HOL-Library.Multiset"
begin

section \<open>Values of the Go program\<close>

text \<open>
  Node identifiers are Go \<open>int\<close>s; the program only compares them and stores them, so they
  are modelled as integers.

  A \<open>float64\<close> is an IEEE 754 binary64 value: a finite number, one of the two infinities,
  or a NaN. A finite value is the real number it denotes; the two zeros are one value and
  the NaNs are one value, since \<open>+\<close>, \<open><\<close> and \<open>==\<close>, the only operations of the program on
  \<open>float64\<close>, do not tell them apart.
\<close>

datatype float64 = NInf | Fin real | PInf | NaN

text \<open>
  Rounding to nearest, ties to even, of a real number to binary64. \<open>rne\<close> rounds to an
  integer. For a positive \<open>x\<close>, \<open>expo x\<close> is the exponent of the binade of \<open>x\<close>, at least
  the exponent \<open>-1022\<close> of the subnormal numbers, and \<open>ulp x\<close> is the distance between
  neighbouring binary64 numbers there (53 bits of precision); \<open>nearest x\<close> is the multiple
  of \<open>ulp x\<close> nearest to \<open>x\<close>. A result of magnitude \<open>2 ^ 1024\<close> or more is an overflow to
  infinity. Every result of magnitude below that is a binary64 number.
\<close>

definition rne :: "real \<Rightarrow> int" where
  "rne x = (if x - of_int \<lfloor>x\<rfloor> < 1 / 2 then \<lfloor>x\<rfloor>
            else if 1 / 2 < x - of_int \<lfloor>x\<rfloor> then \<lfloor>x\<rfloor> + 1
            else if even \<lfloor>x\<rfloor> then \<lfloor>x\<rfloor> else \<lfloor>x\<rfloor> + 1)"

definition expo :: "real \<Rightarrow> int" where
  "expo x = max (- 1022) \<lfloor>log 2 x\<rfloor>"

definition ulp :: "real \<Rightarrow> real" where
  "ulp x = 2 powr (of_int (expo x) - 52)"

definition nearest :: "real \<Rightarrow> real" where
  "nearest x = ulp x * of_int (rne (x / ulp x))"

definition round_pos :: "real \<Rightarrow> float64" where
  "round_pos x = (if x = 0 then Fin 0 else if 2 ^ 1024 \<le> nearest x then PInf else Fin (nearest x))"

fun fneg :: "float64 \<Rightarrow> float64" where
  "fneg (Fin a) = Fin (- a)"
| "fneg PInf = NInf"
| "fneg NInf = PInf"
| "fneg NaN = NaN"

definition round64 :: "real \<Rightarrow> float64" where
  "round64 x = (if x < 0 then fneg (round_pos (- x)) else round_pos x)"

text \<open>
  Go's \<open>+\<close> and \<open><\<close> on \<open>float64\<close>. The sum of two finite values is the rounded exact sum;
  the sum of the two infinities is a NaN; every comparison with a NaN is false.
\<close>

fun fadd :: "float64 \<Rightarrow> float64 \<Rightarrow> float64" where
  "fadd (Fin a) (Fin b) = round64 (a + b)"
| "fadd NaN b = NaN"
| "fadd a NaN = NaN"
| "fadd PInf NInf = NaN"
| "fadd NInf PInf = NaN"
| "fadd PInf b = PInf"
| "fadd a PInf = PInf"
| "fadd NInf b = NInf"
| "fadd a NInf = NInf"

fun fless :: "float64 \<Rightarrow> float64 \<Rightarrow> bool" where
  "fless (Fin a) (Fin b) = (a < b)"
| "fless NInf (Fin b) = True"
| "fless NInf PInf = True"
| "fless (Fin a) PInf = True"
| "fless a b = False"

text \<open>
  A Go map that the program ranges over is an association list read with \<open>map_of\<close> and
  written with \<open>AList.update\<close>. Go leaves the iteration order of \<open>range\<close> over a map
  unspecified, and it may change from one \<open>range\<close> statement to the next. The order is
  therefore an argument of the model: a ranking of the keys, and \<open>range\<close> yields the
  entries of the map by increasing rank. Every ranking gives a permutation of the
  entries, and every permutation is given by some ranking.
\<close>

type_synonym order = "int \<Rightarrow> nat"

definition go_range :: "order \<Rightarrow> (int \<times> 'v) list \<Rightarrow> (int \<times> 'v) list" where
  "go_range ord m = sort_key (\<lambda>e. ord (fst e)) (AList.clearjunk m)"

text \<open>
  The iteration orders of one call: \<open>nodes_ord\<close> for \<open>range g.nodes\<close>, \<open>adj_ord\<close> for
  \<open>range g.adjacency\<close>, \<open>nbr_ord n\<close> for \<open>range g.adjacency[n]\<close>, and \<open>other_ord n\<close> for
  the inner \<open>range g.nodes\<close> of \<open>FloydWarshall\<close> at the node \<open>n\<close>.
\<close>

record sched =
  nodes_ord :: order
  adj_ord :: order
  nbr_ord :: "int \<Rightarrow> order"
  other_ord :: "int \<Rightarrow> order"

text \<open>
  Maps that are local to one call are only read and written, never ranged over; they are
  partial functions. Reading a missing key gives the zero value of the element type.
\<close>

definition getf :: "(int \<rightharpoonup> float64) \<Rightarrow> int \<Rightarrow> float64" where
  "getf m k = (case m k of None \<Rightarrow> Fin 0 | Some v \<Rightarrow> v)"

definition geti :: "(int \<rightharpoonup> int) \<Rightarrow> int \<Rightarrow> int" where
  "geti m k = (case m k of None \<Rightarrow> 0 | Some v \<Rightarrow> v)"

definition getb :: "(int \<rightharpoonup> bool) \<Rightarrow> int \<Rightarrow> bool" where
  "getb m k = (case m k of None \<Rightarrow> False | Some v \<Rightarrow> v)"

section \<open>Graph store\<close>

text \<open>
  The two maps of a \<open>Graph\<close>. A weight is any \<open>float64\<close>: \<open>AddEdge\<close> stores what it is
  given.
\<close>

record Graph =
  adjacency :: "(int \<times> (int \<times> float64) list) list"
  nodes :: "(int \<times> bool) list"

definition NewGraph :: Graph where
  "NewGraph = \<lparr>adjacency = [], nodes = []\<rparr>"

text \<open>\<open>g.adjacency[n]\<close>: the row of \<open>n\<close>, the nil map (no entries) when \<open>n\<close> is not a key.\<close>

definition row :: "Graph \<Rightarrow> int \<Rightarrow> (int \<times> float64) list" where
  "row g n = (case map_of (adjacency g) n of None \<Rightarrow> [] | Some r \<Rightarrow> r)"

definition AddEdge :: "Graph \<Rightarrow> int \<Rightarrow> int \<Rightarrow> float64 \<Rightarrow> Graph" where
  "AddEdge g from to weight =
     (let ns = AList.update to True (AList.update from True (nodes g));
          adj = (if map_of (adjacency g) from = None
                 then AList.update from [] (adjacency g) else adjacency g);
          r = (case map_of adj from of None \<Rightarrow> [] | Some r \<Rightarrow> r)
      in \<lparr>adjacency = AList.update from (AList.update to weight r) adj, nodes = ns\<rparr>)"

definition AddUndirectedEdge :: "Graph \<Rightarrow> int \<Rightarrow> int \<Rightarrow> float64 \<Rightarrow> Graph" where
  "AddUndirectedEdge g a b weight = AddEdge (AddEdge g a b weight) b a weight"

text \<open>
  What \<open>AddEdge\<close> maintains: every key of the adjacency map and every neighbour in a row
  is registered, and the registry only holds \<open>true\<close>.
\<close>

definition registered :: "Graph \<Rightarrow> int \<Rightarrow> bool" where
  "registered g n = (map_of (nodes g) n \<noteq> None)"

definition edge :: "Graph \<Rightarrow> int \<Rightarrow> int \<Rightarrow> float64 \<Rightarrow> bool" where
  "edge g u v w = (map_of (row g u) v = Some w)"

definition graph_inv :: "Graph \<Rightarrow> bool" where
  "graph_inv g =
     ((\<forall>u \<in> fst ` set (adjacency g). registered g u) \<and>
      (\<forall>u \<in> fst ` set (adjacency g). \<forall>v \<in> fst ` set (row g u). registered g v) \<and>
      (\<forall>n \<in> fst ` set (nodes g). map_of (nodes g) n = Some True))"

section \<open>Priority queue\<close>

record item =
  node :: int
  priority :: float64
  index :: int

type_synonym priorityQueue = "item list"

text \<open>The methods of \<open>priorityQueue\<close> that \<open>container/heap\<close> calls.\<close>

definition Less :: "priorityQueue \<Rightarrow> nat \<Rightarrow> nat \<Rightarrow> bool" where
  "Less pq i j = fless (priority (pq ! i)) (priority (pq ! j))"

definition Swap :: "priorityQueue \<Rightarrow> nat \<Rightarrow> nat \<Rightarrow> priorityQueue" where
  "Swap pq i j = pq[i := (pq ! j)\<lparr>index := int i\<rparr>, j := (pq ! i)\<lparr>index := int j\<rparr>]"

definition Push :: "priorityQueue \<Rightarrow> item \<Rightarrow> priorityQueue" where
  "Push pq x = pq @ [x\<lparr>index := int (length pq)\<rparr>]"

definition Pop :: "priorityQueue \<Rightarrow> item \<times> priorityQueue" where
  "Pop pq = ((last pq)\<lparr>index := - 1\<rparr>, butlast pq)"

text \<open>
  \<open>container/heap\<close> of the Go standard library, which the program imports: \<open>up\<close> and
  \<open>down\<close> sift an element towards the root and towards the leaves; \<open>heap.Init\<close>,
  \<open>heap.Push\<close> and \<open>heap.Pop\<close> are built from them and from the methods above. Indices
  are natural numbers: in \<open>up\<close> the parent of the root is \<open>(0 - 1) / 2 = 0\<close> both in Go,
  whose division truncates, and here. The boolean that Go's \<open>down\<close> returns is not used
  by \<open>Init\<close> and \<open>Pop\<close> and is left out.
\<close>

function up :: "priorityQueue \<Rightarrow> nat \<Rightarrow> priorityQueue" where
  "up pq j =
     (let i = (j - 1) div 2
      in if i = j \<or> \<not> Less pq j i then pq else up (Swap pq i j) i)"
  by pat_completeness auto
termination
  by (relation "measure (\<lambda>(pq, j). j)") auto

function down :: "priorityQueue \<Rightarrow> nat \<Rightarrow> nat \<Rightarrow> priorityQueue" where
  "down pq i n =
     (let j1 = 2 * i + 1
      in if j1 \<ge> n then pq
         else let j = (if j1 + 1 < n \<and> Less pq (j1 + 1) j1 then j1 + 1 else j1)
              in if \<not> Less pq j i then pq else down (Swap pq i j) j n)"
  by pat_completeness auto
termination
  by (relation "measure (\<lambda>(pq, i, n). n - i)") auto

definition heap_Init :: "priorityQueue \<Rightarrow> priorityQueue" where
  "heap_Init pq = (let n = length pq in fold (\<lambda>i q. down q i n) (rev [0..<n div 2]) pq)"

definition heap_Push :: "priorityQueue \<Rightarrow> item \<Rightarrow> priorityQueue" where
  "heap_Push pq x = (let q = Push pq x in up q (length q - 1))"

text \<open>
  \<open>heap.Pop\<close> panics on an empty queue (\<open>Swap(0, -1)\<close>); every call in the program is
  guarded by \<open>pq.Len() > 0\<close>, and so is every call in the model.
\<close>

definition heap_Pop :: "priorityQueue \<Rightarrow> item \<times> priorityQueue" where
  "heap_Pop pq = (let n = length pq - 1 in Pop (down (Swap pq 0 n) 0 n))"

section \<open>Dijkstra and A*\<close>

record dstate =
  dist :: "int \<rightharpoonup> float64"
  prev :: "int \<rightharpoonup> int"
  visited :: "int \<rightharpoonup> bool"
  pq :: priorityQueue

text \<open>The initialisation: every registered node at infinity, the source at 0 and queued.\<close>

definition init_dist :: "order \<Rightarrow> Graph \<Rightarrow> int \<Rightarrow> (int \<rightharpoonup> float64)" where
  "init_dist ord g source =
     (fold (\<lambda>(n, b) d. d(n \<mapsto> PInf)) (go_range ord (nodes g)) Map.empty)(source \<mapsto> Fin 0)"

definition init_state :: "order \<Rightarrow> Graph \<Rightarrow> int \<Rightarrow> float64 \<Rightarrow> dstate" where
  "init_state ord g source p =
     \<lparr>dist = init_dist ord g source, prev = Map.empty, visited = Map.empty,
      pq = heap_Push (heap_Init []) \<lparr>node = source, priority = p, index = 0\<rparr>\<rparr>"

text \<open>
  One turn of the inner loop, for the edge from \<open>u\<close> to \<open>v\<close> of weight \<open>w\<close>. The priority
  of the pushed entry is \<open>newDist\<close> plus \<open>hv\<close>, the heuristic value of \<open>v\<close>; Dijkstra
  pushes \<open>newDist\<close> itself.
\<close>

definition relax_dijkstra :: "int \<Rightarrow> int \<times> float64 \<Rightarrow> dstate \<Rightarrow> dstate" where
  "relax_dijkstra u e st =
     (case e of (v, w) \<Rightarrow>
        if getb (visited st) v then st
        else let newDist = fadd (getf (dist st) u) w
             in if fless newDist (getf (dist st) v)
                then st\<lparr>dist := (dist st)(v \<mapsto> newDist), prev := (prev st)(v \<mapsto> u),
                        pq := heap_Push (pq st) \<lparr>node = v, priority = newDist, index = 0\<rparr>\<rparr>
                else st)"

definition relax_astar :: "(int \<Rightarrow> int \<Rightarrow> float64) \<Rightarrow> int \<Rightarrow> int \<Rightarrow> int \<times> float64 \<Rightarrow> dstate \<Rightarrow> dstate" where
  "relax_astar heuristic target u e st =
     (case e of (v, w) \<Rightarrow>
        if getb (visited st) v then st
        else let newDist = fadd (getf (dist st) u) w
             in if fless newDist (getf (dist st) v)
                then st\<lparr>dist := (dist st)(v \<mapsto> newDist), prev := (prev st)(v \<mapsto> u),
                        pq := heap_Push (pq st)
                                \<lparr>node = v, priority = fadd newDist (heuristic v target), index = 0\<rparr>\<rparr>
                else st)"

text \<open>
  One turn of the main loop on a non-empty queue: the state after it, and whether the
  loop goes on (\<open>False\<close> is the \<open>break\<close> at the target).
\<close>

definition dijkstra_body :: "sched \<Rightarrow> Graph \<Rightarrow> int \<Rightarrow> dstate \<Rightarrow> bool \<times> dstate" where
  "dijkstra_body sch g target st =
     (case heap_Pop (pq st) of (current, q) \<Rightarrow>
        let u = node current in
        if getb (visited st) u then (True, st\<lparr>pq := q\<rparr>)
        else let st1 = st\<lparr>visited := (visited st)(u \<mapsto> True), pq := q\<rparr>
             in if u = target then (False, st1)
                else (True, fold (relax_dijkstra u) (go_range (nbr_ord sch u) (row g u)) st1))"

definition astar_body ::
  "sched \<Rightarrow> Graph \<Rightarrow> (int \<Rightarrow> int \<Rightarrow> float64) \<Rightarrow> int \<Rightarrow> dstate \<Rightarrow> bool \<times> dstate" where
  "astar_body sch g heuristic target st =
     (case heap_Pop (pq st) of (current, q) \<Rightarrow>
        let u = node current in
        if getb (visited st) u then (True, st\<lparr>pq := q\<rparr>)
        else let st1 = st\<lparr>visited := (visited st)(u \<mapsto> True), pq := q\<rparr>
             in if u = target then (False, st1)
                else (True, fold (relax_astar heuristic target u)
                                 (go_range (nbr_ord sch u) (row g u)) st1))"

text \<open>The measure of both main loops: unvisited keys of the adjacency map, then queue length.\<close>

definition unvisited_keys :: "Graph \<Rightarrow> dstate \<Rightarrow> nat" where
  "unvisited_keys g st = card {k \<in> fst ` set (adjacency g). \<not> getb (visited st) k}"

definition loop_rel :: "Graph \<Rightarrow> (dstate \<times> dstate) set" where
  "loop_rel g = inv_image (less_than <*lex*> less_than) (\<lambda>st. (unvisited_keys g st, length (pq st)))"

declare up.simps [simp del] down.simps [simp del]

lemma length_Swap [simp]: "length (Swap q i j) = length q"
  by (simp add: Swap_def)

lemma length_up [simp]: "length (up q j) = length q"
proof (induction q j rule: up.induct)
  case (1 q j)
  show ?case
    by (subst up.simps) (use 1 in \<open>auto simp: Let_def\<close>)
qed

lemma length_down [simp]: "length (down q i n) = length q"
proof (induction q i n rule: down.induct)
  case (1 q i n)
  show ?case
    by (subst down.simps) (use 1 in \<open>auto simp: Let_def\<close>)
qed

lemma length_heap_Push [simp]: "length (heap_Push q x) = Suc (length q)"
  by (simp add: heap_Push_def Push_def Let_def)

lemma length_heap_Pop [simp]: "length (snd (heap_Pop q)) = length q - 1"
  by (simp add: heap_Pop_def Pop_def Let_def)

lemma visited_relax_dijkstra [simp]: "visited (relax_dijkstra u e st) = visited st"
  by (simp add: relax_dijkstra_def Let_def split: prod.splits)

lemma visited_fold_relax_dijkstra [simp]:
  "visited (fold (relax_dijkstra u) es st) = visited st"
  by (induction es arbitrary: st) simp_all

lemma visited_relax_astar [simp]: "visited (relax_astar h t u e st) = visited st"
  by (simp add: relax_astar_def Let_def split: prod.splits)

lemma visited_fold_relax_astar [simp]:
  "visited (fold (relax_astar h t u) es st) = visited st"
  by (induction es arbitrary: st) simp_all

lemma go_range_Nil [simp]: "go_range ord [] = []"
  by (simp add: go_range_def)

lemma row_not_key: "u \<notin> fst ` set (adjacency g) \<Longrightarrow> row g u = []"
proof -
  assume "u \<notin> fst ` set (adjacency g)"
  then have "map_of (adjacency g) u = None"
    by (simp add: map_of_eq_None_iff)
  then show ?thesis by (simp add: row_def)
qed

lemma unvisited_keys_visit:
  "\<not> getb (visited st) u \<Longrightarrow> u \<in> fst ` set (adjacency g) \<Longrightarrow> visited st' = (visited st)(u \<mapsto> True)
   \<Longrightarrow> unvisited_keys g st' < unvisited_keys g st"
  unfolding unvisited_keys_def
  by (rule psubset_card_mono) (auto simp: getb_def)

lemma unvisited_keys_cong:
  "u \<notin> fst ` set (adjacency g) \<Longrightarrow> visited st' = (visited st)(u \<mapsto> True)
   \<Longrightarrow> unvisited_keys g st' = unvisited_keys g st"
  unfolding unvisited_keys_def
  by (rule arg_cong [where f = card]) (auto simp: getb_def)

lemma dijkstra_body_decreases:
  assumes "pq st \<noteq> []" and "dijkstra_body sch g target st = (True, st')"
  shows "(st', st) \<in> loop_rel g"
proof -
  obtain current q where pop: "heap_Pop (pq st) = (current, q)"
    by (cases "heap_Pop (pq st)")
  have lq: "length q < length (pq st)"
    using length_heap_Pop [of "pq st"] assms(1) by (simp add: pop)
  show ?thesis
  proof (cases "getb (visited st) (node current)")
    case True
    then have "st' = st\<lparr>pq := q\<rparr>"
      using assms(2) by (simp add: dijkstra_body_def pop)
    then show ?thesis
      using lq by (simp add: loop_rel_def unvisited_keys_def)
  next
    case False
    let ?u = "node current"
    let ?st1 = "st\<lparr>visited := (visited st)(?u \<mapsto> True), pq := q\<rparr>"
    have st': "st' = fold (relax_dijkstra ?u) (go_range (nbr_ord sch ?u) (row g ?u)) ?st1"
      using assms(2) False by (simp add: dijkstra_body_def pop Let_def split: if_splits)
    show ?thesis
    proof (cases "?u \<in> fst ` set (adjacency g)")
      case True
      have "unvisited_keys g st' < unvisited_keys g st"
        by (rule unvisited_keys_visit [OF False True]) (simp add: st')
      then show ?thesis by (simp add: loop_rel_def)
    next
      case nk: False
      have "unvisited_keys g st' = unvisited_keys g st"
        by (rule unvisited_keys_cong [OF nk]) (simp add: st')
      moreover have "pq st' = q"
        by (simp add: st' row_not_key [OF nk])
      ultimately show ?thesis
        using lq by (simp add: loop_rel_def)
    qed
  qed
qed

lemma astar_body_decreases:
  assumes "pq st \<noteq> []" and "astar_body sch g h target st = (True, st')"
  shows "(st', st) \<in> loop_rel g"
proof -
  obtain current q where pop: "heap_Pop (pq st) = (current, q)"
    by (cases "heap_Pop (pq st)")
  have lq: "length q < length (pq st)"
    using length_heap_Pop [of "pq st"] assms(1) by (simp add: pop)
  show ?thesis
  proof (cases "getb (visited st) (node current)")
    case True
    then have "st' = st\<lparr>pq := q\<rparr>"
      using assms(2) by (simp add: astar_body_def pop)
    then show ?thesis
      using lq by (simp add: loop_rel_def unvisited_keys_def)
  next
    case False
    let ?u = "node current"
    let ?st1 = "st\<lparr>visited := (visited st)(?u \<mapsto> True), pq := q\<rparr>"
    have st': "st' = fold (relax_astar h target ?u) (go_range (nbr_ord sch ?u) (row g ?u)) ?st1"
      using assms(2) False by (simp add: astar_body_def pop Let_def split: if_splits)
    show ?thesis
    proof (cases "?u \<in> fst ` set (adjacency g)")
      case True
      have "unvisited_keys g st' < unvisited_keys g st"
        by (rule unvisited_keys_visit [OF False True]) (simp add: st')
      then show ?thesis by (simp add: loop_rel_def)
    next
      case nk: False
      have "unvisited_keys g st' = unvisited_keys g st"
        by (rule unvisited_keys_cong [OF nk]) (simp add: st')
      moreover have "pq st' = q"
        by (simp add: st' row_not_key [OF nk])
      ultimately show ?thesis
        using lq by (simp add: loop_rel_def)
    qed
  qed
qed

lemma wf_loop_rel: "wf (loop_rel g)"
  unfolding loop_rel_def by (intro wf_inv_image wf_lex_prod wf_less_than)

text \<open>The main loops: \<open>for pq.Len() > 0 { ... }\<close>.\<close>

function dijkstra_loop :: "sched \<Rightarrow> Graph \<Rightarrow> int \<Rightarrow> dstate \<Rightarrow> dstate" where
  "dijkstra_loop sch g target st =
     (if pq st = [] then st
      else case dijkstra_body sch g target st of
             (True, st') \<Rightarrow> dijkstra_loop sch g target st'
           | (False, st') \<Rightarrow> st')"
  by pat_completeness auto
termination
proof (relation "inv_image (less_than <*lex*> less_than)
                   (\<lambda>(sch, g, t, st). (unvisited_keys g st, length (pq st)))")
  show "wf (inv_image (less_than <*lex*> less_than)
              (\<lambda>(sch, g, t, st). (unvisited_keys g st, length (pq st))))"
    by (intro wf_inv_image wf_lex_prod wf_less_than)
next
  fix sch :: sched and g target st and b :: bool and st'
  assume "pq st \<noteq> []" and "(b, st') = dijkstra_body sch g target st" and "b = True"
  then have "(st', st) \<in> loop_rel g"
    using dijkstra_body_decreases [of st sch g target st'] by simp
  then show "((sch, g, target, st'), (sch, g, target, st))
               \<in> inv_image (less_than <*lex*> less_than)
                   (\<lambda>(sch, g, t, st). (unvisited_keys g st, length (pq st)))"
    by (simp add: loop_rel_def)
qed

function astar_loop ::
  "sched \<Rightarrow> Graph \<Rightarrow> (int \<Rightarrow> int \<Rightarrow> float64) \<Rightarrow> int \<Rightarrow> dstate \<Rightarrow> dstate" where
  "astar_loop sch g heuristic target st =
     (if pq st = [] then st
      else case astar_body sch g heuristic target st of
             (True, st') \<Rightarrow> astar_loop sch g heuristic target st'
           | (False, st') \<Rightarrow> st')"
  by pat_completeness auto
termination
proof (relation "inv_image (less_than <*lex*> less_than)
                   (\<lambda>(sch, g, h, t, st). (unvisited_keys g st, length (pq st)))")
  show "wf (inv_image (less_than <*lex*> less_than)
              (\<lambda>(sch, g, h, t, st). (unvisited_keys g st, length (pq st))))"
    by (intro wf_inv_image wf_lex_prod wf_less_than)
next
  fix sch :: sched and g h target st and b :: bool and st'
  assume "pq st \<noteq> []" and "(b, st') = astar_body sch g h target st" and "b = True"
  then have "(st', st) \<in> loop_rel g"
    using astar_body_decreases [of st sch g h target st'] by simp
  then show "((sch, g, h, target, st'), (sch, g, h, target, st))
               \<in> inv_image (less_than <*lex*> less_than)
                   (\<lambda>(sch, g, h, t, st). (unvisited_keys g st, length (pq st)))"
    by (simp add: loop_rel_def)
qed

declare dijkstra_loop.simps [simp del] astar_loop.simps [simp del]

text \<open>
  The reconstruction of the path: \<open>for node != source { path = append([]int{node}, path...);
  node = prev[node] }\<close>. Nothing in the loop bounds it, so it is a partial function and
  \<open>None\<close> is a run that does not return.
\<close>

partial_function (option) walk_back :: "(int \<rightharpoonup> int) \<Rightarrow> int \<Rightarrow> int \<Rightarrow> int list \<Rightarrow> int list option" where
  "walk_back prv source n path =
     (if n \<noteq> source then walk_back prv source (geti prv n) (n # path) else Some path)"

declare walk_back.simps [code]

definition reconstruct :: "dstate \<Rightarrow> int \<Rightarrow> int \<Rightarrow> (float64 \<times> int list) option" where
  "reconstruct st source target =
     (if getf (dist st) target \<noteq> PInf
      then case walk_back (prev st) source target [] of
             None \<Rightarrow> None
           | Some path \<Rightarrow> Some (getf (dist st) target, source # path)
      else Some (getf (dist st) target, []))"

definition Dijkstra :: "sched \<Rightarrow> Graph \<Rightarrow> int \<Rightarrow> int \<Rightarrow> (float64 \<times> int list) option" where
  "Dijkstra sch g source target =
     reconstruct (dijkstra_loop sch g target (init_state (nodes_ord sch) g source (Fin 0)))
       source target"

definition AStar ::
  "sched \<Rightarrow> Graph \<Rightarrow> int \<Rightarrow> int \<Rightarrow> (int \<Rightarrow> int \<Rightarrow> float64) \<Rightarrow> (float64 \<times> int list) option" where
  "AStar sch g source target heuristic =
     reconstruct (astar_loop sch g heuristic target
                    (init_state (nodes_ord sch) g source (heuristic source target)))
       source target"

section \<open>Bellman-Ford\<close>

definition bf_relax :: "int \<Rightarrow> int \<times> float64 \<Rightarrow> (int \<rightharpoonup> float64) \<Rightarrow> (int \<rightharpoonup> float64)" where
  "bf_relax from e d =
     (case e of (to, weight) \<Rightarrow>
        if fless (fadd (getf d from) weight) (getf d to)
        then d(to \<mapsto> fadd (getf d from) weight) else d)"

text \<open>One pass over all edges.\<close>

definition bf_pass :: "sched \<Rightarrow> Graph \<Rightarrow> (int \<rightharpoonup> float64) \<Rightarrow> (int \<rightharpoonup> float64)" where
  "bf_pass sch g d =
     fold (\<lambda>(from, r) d. fold (bf_relax from) (go_range (nbr_ord sch from) (row g from)) d)
          (go_range (adj_ord sch) (adjacency g)) d"

text \<open>The check for negative cycles; both loops stop at the first edge that improves.\<close>

fun bf_check_row :: "int \<Rightarrow> (int \<times> float64) list \<Rightarrow> (int \<rightharpoonup> float64) \<Rightarrow> bool" where
  "bf_check_row from [] d = False"
| "bf_check_row from ((to, weight) # es) d =
     (if fless (fadd (getf d from) weight) (getf d to) then True
      else bf_check_row from es d)"

fun bf_check :: "sched \<Rightarrow> Graph \<Rightarrow> (int \<times> (int \<times> float64) list) list \<Rightarrow> (int \<rightharpoonup> float64) \<Rightarrow> bool" where
  "bf_check sch g [] d = False"
| "bf_check sch g ((from, r) # rs) d =
     (if bf_check_row from (go_range (nbr_ord sch from) (row g from)) d then True
      else bf_check sch g rs d)"

text \<open>\<open>len(m)\<close> of a Go map.\<close>

definition go_len :: "(int \<times> 'v) list \<Rightarrow> nat" where
  "go_len m = length (AList.clearjunk m)"

text \<open>
  \<open>BellmanFord\<close>. Every pass may range over the maps in an order of its own: \<open>schs i\<close> is
  the schedule of pass \<open>i\<close>, and the check runs under the schedule after the last pass.
  For an empty registry \<open>nodeCount - 1\<close> is \<open>-1\<close> in Go and \<open>0\<close> here; no pass runs in
  either case.
\<close>

definition bf_passes :: "(nat \<Rightarrow> sched) \<Rightarrow> Graph \<Rightarrow> nat \<Rightarrow> (int \<rightharpoonup> float64) \<Rightarrow> (int \<rightharpoonup> float64)" where
  "bf_passes schs g n d = fold (\<lambda>i d. bf_pass (schs i) g d) [0..<n] d"

definition BellmanFord :: "(nat \<Rightarrow> sched) \<Rightarrow> Graph \<Rightarrow> int \<Rightarrow> (int \<rightharpoonup> float64) \<times> bool" where
  "BellmanFord schs g source =
     (let nodeCount = go_len (nodes g);
          d = bf_passes schs g (nodeCount - 1) (init_dist (nodes_ord (schs 0)) g source);
          c = schs (nodeCount - 1);
          hasNegativeCycle = bf_check c g (go_range (adj_ord c) (adjacency g)) d
      in (d, hasNegativeCycle))"

section \<open>Floyd-Warshall\<close>

text \<open>
  The matrix is a map of maps. Reading through a missing row gives 0; assigning through
  a missing row is an assignment to an entry of a nil map, on which Go panics.
\<close>

datatype panic = AssignNilMap

type_synonym matrix = "int \<rightharpoonup> (int \<rightharpoonup> float64)"

definition get2 :: "matrix \<Rightarrow> int \<Rightarrow> int \<Rightarrow> float64" where
  "get2 d i j = (case d i of None \<Rightarrow> Fin 0 | Some r \<Rightarrow> getf r j)"

definition set2 :: "matrix \<Rightarrow> int \<Rightarrow> int \<Rightarrow> float64 \<Rightarrow> panic + matrix" where
  "set2 d i j v = (case d i of None \<Rightarrow> Inl AssignNilMap | Some r \<Rightarrow> Inr (d(i \<mapsto> r(j \<mapsto> v))))"

text \<open>A loop whose body may panic.\<close>

fun for_each :: "('a \<Rightarrow> 's \<Rightarrow> panic + 's) \<Rightarrow> 'a list \<Rightarrow> 's \<Rightarrow> panic + 's" where
  "for_each f [] s = Inr s"
| "for_each f (x # xs) s = (case f x s of Inl e \<Rightarrow> Inl e | Inr s' \<Rightarrow> for_each f xs s')"

definition fw_init :: "sched \<Rightarrow> Graph \<Rightarrow> int list \<times> matrix" where
  "fw_init sch g =
     fold (\<lambda>(n, b) (ns, d).
             (ns @ [n],
              d(n \<mapsto> fold (\<lambda>(other, b') r. r(other \<mapsto> (if n = other then Fin 0 else PInf)))
                         (go_range (other_ord sch n) (nodes g)) Map.empty)))
          (go_range (nodes_ord sch) (nodes g)) ([], Map.empty)"

definition fw_edges :: "sched \<Rightarrow> Graph \<Rightarrow> matrix \<Rightarrow> panic + matrix" where
  "fw_edges sch g d =
     for_each (\<lambda>(from, r). for_each (\<lambda>(to, weight) d. set2 d from to weight)
                                    (go_range (nbr_ord sch from) (row g from)))
              (go_range (adj_ord sch) (adjacency g)) d"

definition fw_step :: "int \<Rightarrow> int \<Rightarrow> int \<Rightarrow> matrix \<Rightarrow> panic + matrix" where
  "fw_step k i j d =
     (if fless (fadd (get2 d i k) (get2 d k j)) (get2 d i j)
      then set2 d i j (fadd (get2 d i k) (get2 d k j)) else Inr d)"

definition fw_main :: "int list \<Rightarrow> matrix \<Rightarrow> panic + matrix" where
  "fw_main ns d = for_each (\<lambda>k. for_each (\<lambda>i. for_each (\<lambda>j. fw_step k i j) ns) ns) ns d"

definition FloydWarshall :: "sched \<Rightarrow> Graph \<Rightarrow> panic + matrix" where
  "FloydWarshall sch g =
     (case fw_init sch g of (ns, d0) \<Rightarrow>
        case fw_edges sch g d0 of Inl e \<Rightarrow> Inl e | Inr d1 \<Rightarrow> fw_main ns d1)"

section \<open>Breadth-first search\<close>

record bstate =
  visited_b :: "int \<rightharpoonup> bool"
  queue :: "int list"
  parent :: "int \<rightharpoonup> int"
  distance :: "int \<rightharpoonup> int"

definition bfs_visit :: "int \<Rightarrow> int \<Rightarrow> bstate \<Rightarrow> bstate" where
  "bfs_visit u v st =
     (if \<not> getb (visited_b st) v
      then st\<lparr>visited_b := (visited_b st)(v \<mapsto> True), parent := (parent st)(v \<mapsto> u),
              distance := (distance st)(v \<mapsto> geti (distance st) u + 1),
              queue := queue st @ [v]\<rparr>
      else st)"

definition neighbors :: "sched \<Rightarrow> Graph \<Rightarrow> int \<Rightarrow> int list" where
  "neighbors sch g u = map fst (go_range (nbr_ord sch u) (row g u))"

definition all_neighbors :: "Graph \<Rightarrow> int set" where
  "all_neighbors g = (\<Union>r \<in> snd ` set (adjacency g). fst ` set r)"

definition bfs_rel :: "Graph \<Rightarrow> (bstate \<times> bstate) set" where
  "bfs_rel g = inv_image (less_than <*lex*> less_than)
     (\<lambda>st. (card {n \<in> all_neighbors g. \<not> getb (visited_b st) n}, length (queue st)))"

lemma set_go_range [simp]: "set (go_range ord m) = set (AList.clearjunk m)"
  by (simp add: go_range_def)

lemma keys_go_range [simp]: "fst ` set (go_range ord m) = fst ` set m"
  by (simp add: dom_clearjunk)

lemma distinct_go_range [simp]: "distinct (map fst (go_range ord m))"
proof -
  have "mset (map fst (go_range ord m)) = mset (map fst (AList.clearjunk m))"
    by (simp add: go_range_def)
  then show ?thesis
    using distinct_clearjunk [of m] by (metis mset_eq_imp_distinct_iff)
qed

lemma go_range_iff: "(k, v) \<in> set (go_range ord m) \<longleftrightarrow> map_of m k = Some v"
proof -
  have "(k, v) \<in> set (AList.clearjunk m) \<longleftrightarrow> map_of (AList.clearjunk m) k = Some v"
    by (simp add: map_of_eq_Some_iff)
  then show ?thesis by (simp add: map_of_clearjunk)
qed

lemma row_subset_all_neighbors: "fst ` set (row g u) \<subseteq> all_neighbors g"
proof (cases "map_of (adjacency g) u")
  case None
  then show ?thesis by (simp add: row_def)
next
  case (Some r)
  then have "(u, r) \<in> set (adjacency g)" by (rule map_of_SomeD)
  then have "r \<in> snd ` set (adjacency g)" by force
  then show ?thesis using Some by (auto simp: row_def all_neighbors_def)
qed

lemma set_neighbors [simp]: "set (neighbors sch g u) = fst ` set (row g u)"
  by (simp add: neighbors_def dom_clearjunk)

lemma finite_all_neighbors [simp]: "finite (all_neighbors g)"
  by (simp add: all_neighbors_def)

lemma bfs_visit_cases:
  assumes "v \<in> all_neighbors g"
  shows "bfs_visit u v st = st
         \<or> {n \<in> all_neighbors g. \<not> getb (visited_b (bfs_visit u v st)) n}
             \<subset> {n \<in> all_neighbors g. \<not> getb (visited_b st) n}"
  using assms by (auto simp: bfs_visit_def getb_def)

lemma bfs_fold_cases:
  assumes "set vs \<subseteq> all_neighbors g"
  shows "fold (bfs_visit u) vs st = st
         \<or> card {n \<in> all_neighbors g. \<not> getb (visited_b (fold (bfs_visit u) vs st)) n}
             < card {n \<in> all_neighbors g. \<not> getb (visited_b st) n}"
  using assms
proof (induction vs arbitrary: st)
  case Nil
  then show ?case by simp
next
  case (Cons v vs)
  let ?st1 = "bfs_visit u v st"
  have v: "v \<in> all_neighbors g" and vs: "set vs \<subseteq> all_neighbors g"
    using Cons.prems by auto
  from bfs_visit_cases [OF v, of u st] show ?case
  proof
    assume "?st1 = st"
    then show ?thesis using Cons.IH [OF vs, of st] by simp
  next
    assume "{n \<in> all_neighbors g. \<not> getb (visited_b ?st1) n}
              \<subset> {n \<in> all_neighbors g. \<not> getb (visited_b st) n}"
    then have lt: "card {n \<in> all_neighbors g. \<not> getb (visited_b ?st1) n}
                     < card {n \<in> all_neighbors g. \<not> getb (visited_b st) n}"
      by (intro psubset_card_mono) auto
    from Cons.IH [OF vs, of ?st1] show ?thesis
      using lt by auto
  qed
qed

text \<open>
  The loop of \<open>BFS\<close>: \<open>for len(queue) > 0 { node := queue[0]; queue = queue[1:]; ... }\<close>.
\<close>

function bfs_loop :: "sched \<Rightarrow> Graph \<Rightarrow> int \<Rightarrow> bstate \<Rightarrow> bstate" where
  "bfs_loop sch g target st =
     (case queue st of
        [] \<Rightarrow> st
      | u # q \<Rightarrow>
          if u = target then st\<lparr>queue := q\<rparr>
          else bfs_loop sch g target (fold (bfs_visit u) (neighbors sch g u) (st\<lparr>queue := q\<rparr>)))"
  by pat_completeness auto
termination
proof (relation "inv_image (less_than <*lex*> less_than)
    (\<lambda>(sch, g, t, st). (card {n \<in> all_neighbors g. \<not> getb (visited_b st) n}, length (queue st)))")
  show "wf (inv_image (less_than <*lex*> less_than)
    (\<lambda>(sch, g, t, st). (card {n \<in> all_neighbors g. \<not> getb (visited_b st) n}, length (queue st))))"
    by (intro wf_inv_image wf_lex_prod wf_less_than)
next
  fix sch :: sched and g target and st :: bstate and u q
  assume q: "queue st = u # q" and "u \<noteq> target"
  let ?st1 = "st\<lparr>queue := q\<rparr>"
  have "set (neighbors sch g u) \<subseteq> all_neighbors g"
    using row_subset_all_neighbors [of g u] by simp
  from bfs_fold_cases [OF this, of u ?st1]
  show "((sch, g, target, fold (bfs_visit u) (neighbors sch g u) ?st1), (sch, g, target, st))
          \<in> inv_image (less_than <*lex*> less_than)
    (\<lambda>(sch, g, t, st). (card {n \<in> all_neighbors g. \<not> getb (visited_b st) n}, length (queue st)))"
    using q by auto
qed

declare bfs_loop.simps [simp del]

text \<open>
  \<open>BFS\<close>. The unreachable target is answered with \<open>(-1, nil)\<close>; the nil slice is the
  empty list.
\<close>

definition BFS :: "sched \<Rightarrow> Graph \<Rightarrow> int \<Rightarrow> int \<Rightarrow> (int \<times> int list) option" where
  "BFS sch g source target =
     (if source = target then Some (0, [source])
      else let st = bfs_loop sch g target
                      \<lparr>visited_b = [source \<mapsto> True], queue = [source], parent = Map.empty,
                       distance = [source \<mapsto> 0]\<rparr>
           in if getb (visited_b st) target
              then case walk_back (parent st) source target [] of
                     None \<Rightarrow> None
                   | Some path \<Rightarrow> Some (geti (distance st) target, source # path)
              else Some (- 1, []))"

section \<open>Connected components\<close>

text \<open>
  The recursive closure \<open>dfs\<close> with its call stack made explicit: a frame holds the
  neighbours that the \<open>range\<close> loop of one call has yet to yield. The call \<open>dfs(v)\<close> marks
  \<open>v\<close>, appends it to the component and opens a frame with the neighbours of \<open>v\<close>; an
  exhausted frame is a return to the caller's loop.
\<close>

type_synonym cstate = "(int \<rightharpoonup> bool) \<times> int list"

definition frames_size :: "int list list \<Rightarrow> nat" where
  "frames_size stack = sum_list (map (\<lambda>f. 2 * length f + 1) stack)"

definition unvisited_cc :: "Graph \<Rightarrow> (int \<rightharpoonup> bool) \<Rightarrow> nat" where
  "unvisited_cc g vis = card {k \<in> fst ` set (adjacency g). \<not> getb vis k}"

function dfs_run :: "sched \<Rightarrow> Graph \<Rightarrow> int list list \<Rightarrow> cstate \<Rightarrow> cstate" where
  "dfs_run sch g [] st = st"
| "dfs_run sch g ([] # stack) st = dfs_run sch g stack st"
| "dfs_run sch g ((v # vs) # stack) (vis, component) =
     (if \<not> getb vis v
      then dfs_run sch g (neighbors sch g v # vs # stack) (vis(v \<mapsto> True), component @ [v])
      else dfs_run sch g (vs # stack) (vis, component))"
  by pat_completeness auto
termination
proof (relation "inv_image (less_than <*lex*> less_than)
    (\<lambda>(sch, g, stack, st). (unvisited_cc g (fst st), frames_size stack))")
  show "wf (inv_image (less_than <*lex*> less_than)
    (\<lambda>(sch, g, stack, st). (unvisited_cc g (fst st), frames_size stack)))"
    by (intro wf_inv_image wf_lex_prod wf_less_than)
next
  fix sch :: sched and g stack and st :: cstate
  show "((sch, g, stack, st), (sch, g, [] # stack, st))
          \<in> inv_image (less_than <*lex*> less_than)
              (\<lambda>(sch, g, stack, st). (unvisited_cc g (fst st), frames_size stack))"
    by (simp add: frames_size_def)
next
  fix sch :: sched and g v vs stack and vis :: "int \<rightharpoonup> bool" and component :: "int list"
  assume nv: "\<not> getb vis v"
  show "((sch, g, neighbors sch g v # vs # stack, vis(v \<mapsto> True), component @ [v]),
         (sch, g, (v # vs) # stack, vis, component))
          \<in> inv_image (less_than <*lex*> less_than)
              (\<lambda>(sch, g, stack, st). (unvisited_cc g (fst st), frames_size stack))"
  proof (cases "v \<in> fst ` set (adjacency g)")
    case True
    have "unvisited_cc g (vis(v \<mapsto> True)) < unvisited_cc g vis"
      unfolding unvisited_cc_def
      by (rule psubset_card_mono) (use nv True in \<open>auto simp: getb_def\<close>)
    then show ?thesis by simp
  next
    case False
    have "unvisited_cc g (vis(v \<mapsto> True)) = unvisited_cc g vis"
      unfolding unvisited_cc_def
      by (rule arg_cong [where f = card]) (use False in \<open>auto simp: getb_def\<close>)
    moreover have "neighbors sch g v = []"
      by (simp add: neighbors_def row_not_key [OF False])
    ultimately show ?thesis by (simp add: frames_size_def)
  qed
next
  fix sch :: sched and g v vs stack and vis :: "int \<rightharpoonup> bool" and component :: "int list"
  show "((sch, g, vs # stack, vis, component), (sch, g, (v # vs) # stack, vis, component))
          \<in> inv_image (less_than <*lex*> less_than)
              (\<lambda>(sch, g, stack, st). (unvisited_cc g (fst st), frames_size stack))"
    by (simp add: frames_size_def)
qed

definition dfs :: "sched \<Rightarrow> Graph \<Rightarrow> int \<Rightarrow> cstate \<Rightarrow> cstate" where
  "dfs sch g n st =
     (case st of (vis, component) \<Rightarrow>
        dfs_run sch g [neighbors sch g n] (vis(n \<mapsto> True), component @ [n]))"

definition cc_step :: "sched \<Rightarrow> Graph \<Rightarrow> int \<Rightarrow> (int \<rightharpoonup> bool) \<times> int list list \<Rightarrow> (int \<rightharpoonup> bool) \<times> int list list" where
  "cc_step sch g n s =
     (case s of (vis, components) \<Rightarrow>
        if \<not> getb vis n
        then (case dfs sch g n (vis, []) of (vis', component) \<Rightarrow> (vis', components @ [component]))
        else (vis, components))"

definition ConnectedComponents :: "sched \<Rightarrow> Graph \<Rightarrow> int list list" where
  "ConnectedComponents sch g =
     snd (fold (cc_step sch g) (map fst (go_range (nodes_ord sch) (nodes g))) (Map.empty, []))"

definition IsConnected :: "sched \<Rightarrow> Graph \<Rightarrow> bool" where
  "IsConnected sch g = (length (ConnectedComponents sch g) = 1)"

section \<open>Graph edit distance\<close>

text \<open>
  The four counting loops of \<open>GraphEditDistance\<close>. The two counters are \<open>float64\<close>s that
  \<open>++\<close> increments; each runs through two loops. \<open>g2.adjacency[from][to] == 0\<close> reads the
  zero value through a missing key.
\<close>

definition count_nodes :: "order \<Rightarrow> Graph \<Rightarrow> Graph \<Rightarrow> float64 \<Rightarrow> float64" where
  "count_nodes ord g1 g2 c0 =
     fold (\<lambda>(n, b) c. if \<not> getb (map_of (nodes g2)) n then fadd c (Fin 1) else c)
          (go_range ord (nodes g1)) c0"

definition count_edges :: "sched \<Rightarrow> Graph \<Rightarrow> Graph \<Rightarrow> float64 \<Rightarrow> float64" where
  "count_edges sch g1 g2 c0 =
     fold (\<lambda>(from, r) c.
             fold (\<lambda>(to, w) c. if map_of (adjacency g2) from = None
                                    \<or> (case map_of (row g2 from) to of None \<Rightarrow> Fin 0 | Some x \<Rightarrow> x) = Fin 0
                                then fadd c (Fin 1) else c)
                  (go_range (nbr_ord sch from) r) c)
          (go_range (adj_ord sch) (adjacency g1)) c0"

definition GraphEditDistance :: "sched \<Rightarrow> sched \<Rightarrow> Graph \<Rightarrow> Graph \<Rightarrow> float64" where
  "GraphEditDistance s1 s2 g1 g2 =
     (let nodeCount = count_nodes (nodes_ord s2) g2 g1 (count_nodes (nodes_ord s1) g1 g2 (Fin 0));
          edgeCount = count_edges s2 g2 g1 (count_edges s1 g1 g2 (Fin 0))
      in fadd nodeCount edgeCount)"

section \<open>Diameter and radius\<close>

text \<open>
  \<open>GraphDiameter\<close> and \<open>GraphRadius\<close> range over the matrix that \<open>FloydWarshall\<close> returns.
  The keys of that matrix and of its rows are node identifiers that occur in the graph;
  \<open>range_keys\<close> ranges over those of them that are keys of the map, each once, by
  increasing rank. The first schedule is that of the call of \<open>FloydWarshall\<close>; in the
  second, \<open>nodes_ord\<close> orders the outer loop and \<open>other_ord from\<close> the inner loop at
  \<open>from\<close>. \<open>math.IsInf(d, 1)\<close> is \<open>d = PInf\<close>. A panic of \<open>FloydWarshall\<close> is a panic of
  the caller.
\<close>

definition graph_ids :: "Graph \<Rightarrow> int list" where
  "graph_ids g = map fst (nodes g) @ map fst (adjacency g) @ concat (map (\<lambda>(u, r). map fst r) (adjacency g))"

definition range_keys :: "order \<Rightarrow> int list \<Rightarrow> (int \<rightharpoonup> 'v) \<Rightarrow> int list" where
  "range_keys ord ids m = sort_key ord (remdups (filter (\<lambda>k. m k \<noteq> None) ids))"

definition row_max :: "order \<Rightarrow> Graph \<Rightarrow> (int \<rightharpoonup> float64) \<Rightarrow> float64 \<Rightarrow> float64" where
  "row_max ord g r m0 =
     fold (\<lambda>to m. let d = getf r to in if d \<noteq> PInf \<and> fless m d then d else m)
          (range_keys ord (graph_ids g) r) m0"

definition the_row :: "matrix \<Rightarrow> int \<Rightarrow> (int \<rightharpoonup> float64)" where
  "the_row d i = (case d i of None \<Rightarrow> Map.empty | Some r \<Rightarrow> r)"

definition GraphDiameter :: "sched \<Rightarrow> sched \<Rightarrow> Graph \<Rightarrow> panic + float64" where
  "GraphDiameter fsch sch g =
     (case FloydWarshall fsch g of
        Inl e \<Rightarrow> Inl e
      | Inr allPairs \<Rightarrow>
          Inr (fold (\<lambda>from diameter. row_max (other_ord sch from) g (the_row allPairs from) diameter)
                    (range_keys (nodes_ord sch) (graph_ids g) allPairs) (Fin 0)))"

definition GraphRadius :: "sched \<Rightarrow> sched \<Rightarrow> Graph \<Rightarrow> panic + float64" where
  "GraphRadius fsch sch g =
     (case FloydWarshall fsch g of
        Inl e \<Rightarrow> Inl e
      | Inr allPairs \<Rightarrow>
          Inr (fold (\<lambda>from radius.
                       let eccentricity = row_max (other_ord sch from) g (the_row allPairs from) (Fin 0)
                       in if fless eccentricity radius then eccentricity else radius)
                    (range_keys (nodes_ord sch) (graph_ids g) allPairs) PInf))"

section \<open>Notions used to state the claims\<close>

text \<open>
  An edge improves the distances \<open>d\<close> when relaxing it would lower the distance of its
  head; \<open>relax_edge\<close> is that relaxation. \<open>pass_edges\<close> lists the edges in the order in
  which one pass of \<open>BellmanFord\<close> under a given schedule meets them. \<open>sched0\<close> is a
  sample schedule, by absolute value of the key.
\<close>

definition improves :: "(int \<rightharpoonup> float64) \<Rightarrow> int \<Rightarrow> int \<Rightarrow> float64 \<Rightarrow> bool" where
  "improves d u v w = fless (fadd (getf d u) w) (getf d v)"

definition pass_edges :: "sched \<Rightarrow> Graph \<Rightarrow> (int \<times> int \<times> float64) list" where
  "pass_edges sch g =
     concat (map (\<lambda>(u, r). map (\<lambda>(v, w). (u, v, w)) (go_range (nbr_ord sch u) (row g u)))
                 (go_range (adj_ord sch) (adjacency g)))"

definition relax_edge :: "int \<times> int \<times> float64 \<Rightarrow> (int \<rightharpoonup> float64) \<Rightarrow> (int \<rightharpoonup> float64)" where
  "relax_edge e d = (case e of (u, v, w) \<Rightarrow> if improves d u v w then d(v \<mapsto> fadd (getf d u) w) else d)"

definition sched0 :: sched where
  "sched0 = \<lparr>nodes_ord = (\<lambda>n. nat \<bar>n\<bar>), adj_ord = (\<lambda>n. nat \<bar>n\<bar>), nbr_ord = (\<lambda>u n. nat \<bar>n\<bar>),
             other_ord = (\<lambda>u n. nat \<bar>n\<bar>)\<rparr>"

text \<open>
  The nodes that a \<open>visited\<close> map marks, and the invariant of the outer loop of
  \<open>ConnectedComponents\<close>: the components found so far are non-empty, pairwise
  disjoint lists without repetition of registered nodes, and they hold exactly the
  visited nodes.
\<close>

definition vset :: "(int \<rightharpoonup> bool) \<Rightarrow> int set" where
  "vset vis = {n. getb vis n}"

definition cc_inv :: "Graph \<Rightarrow> (int \<rightharpoonup> bool) \<times> int list list \<Rightarrow> bool" where
  "cc_inv g s =
     (distinct (concat (snd s)) \<and> set (concat (snd s)) = vset (fst s) \<and>
      (\<forall>x \<in> vset (fst s). registered g x) \<and> [] \<notin> set (snd s))"

text \<open>
  The content of the queue as a multiset of (node, priority) pairs, and the child that
  \<open>down\<close> compares a node with.
\<close>

definition min_child :: "priorityQueue \<Rightarrow> nat \<Rightarrow> nat \<Rightarrow> nat" where
  "min_child q i n = (if 2 * i + 2 < n \<and> Less q (2 * i + 2) (2 * i + 1) then 2 * i + 2 else 2 * i + 1)"

definition entries :: "priorityQueue \<Rightarrow> (int \<times> float64) multiset" where
  "entries q = mset (map (\<lambda>it. (node it, priority it)) q)"

text \<open>
  The order \<open>\<le>\<close> of \<open>float64\<close>, which no NaN takes part in, and the values that are
  binary64 numbers: a finite value that rounding leaves as it is, an infinity or a NaN.
  Every value that the program computes is one.
\<close>

definition fle :: "float64 \<Rightarrow> float64 \<Rightarrow> bool" where
  "fle a b = (fless a b \<or> (a = b \<and> a \<noteq> NaN))"

fun representable :: "float64 \<Rightarrow> bool" where
  "representable (Fin a) = (round64 a = Fin a)"
| "representable a = True"

text \<open>
  Reachability and paths in the graph. A path is a non-empty list of nodes in which each
  node has an edge to the next. Its cost is the \<open>float64\<close> sum of the weights of those
  edges, added one after the other from the first edge on to the initial 0, which is how
  \<open>Dijkstra\<close> and \<open>BellmanFord\<close> add them.
\<close>

inductive reachable :: "Graph \<Rightarrow> int \<Rightarrow> int \<Rightarrow> bool" for g s where
  here: "reachable g s s"
| step: "reachable g s u \<Longrightarrow> edge g u v w \<Longrightarrow> reachable g s v"

fun is_path :: "Graph \<Rightarrow> int list \<Rightarrow> bool" where
  "is_path g [] = False"
| "is_path g [v] = True"
| "is_path g (u # v # p) = ((\<exists>w. edge g u v w) \<and> is_path g (v # p))"

definition weight :: "Graph \<Rightarrow> int \<Rightarrow> int \<Rightarrow> float64" where
  "weight g u v = (case map_of (row g u) v of None \<Rightarrow> Fin 0 | Some w \<Rightarrow> w)"

fun cost_from :: "Graph \<Rightarrow> float64 \<Rightarrow> int list \<Rightarrow> float64" where
  "cost_from g c (u # v # p) = cost_from g (fadd c (weight g u v)) (v # p)"
| "cost_from g c p = c"

definition path_cost :: "Graph \<Rightarrow> int list \<Rightarrow> float64" where
  "path_cost g p = cost_from g (Fin 0) p"

inductive back_path :: "(int \<rightharpoonup> int) \<Rightarrow> int \<Rightarrow> int \<Rightarrow> int list \<Rightarrow> bool" for prv s where
  stop: "back_path prv s s []"
| hop: "v \<noteq> s \<Longrightarrow> back_path prv s (geti prv v) p \<Longrightarrow> back_path prv s v (p @ [v])"

text \<open>
  The invariant of the main loop of \<open>Dijkstra\<close>. \<open>tree_path g s st v d\<close>: walking \<open>prev\<close>
  back from \<open>v\<close> reaches the source along a path of the graph of cost \<open>d\<close>, all of whose
  nodes but the last are visited. \<open>inv_A\<close>: the source is at distance 0; registered nodes
  have an entry in \<open>dist\<close>, and no entry is a NaN; every distance below \<open>+Inf\<close> is the cost
  of such a path; every queue entry belongs to a node at a distance below \<open>+Inf\<close> that is
  no larger than the entry's priority; an unvisited node at a distance below \<open>+Inf\<close> is
  queued with exactly that distance; visited nodes are at a distance below \<open>+Inf\<close>; the
  first node visited is the source; a node has a \<open>prev\<close> entry only at a distance below
  \<open>+Inf\<close>.
\<close>

definition tree_path :: "Graph \<Rightarrow> int \<Rightarrow> dstate \<Rightarrow> int \<Rightarrow> float64 \<Rightarrow> bool" where
  "tree_path g s st v d =
     (\<exists>p. back_path (prev st) s v p \<and> is_path g (s # p) \<and> path_cost g (s # p) = d \<and>
          (\<forall>u \<in> set (butlast (s # p)). getb (visited st) u))"

definition inv_A :: "Graph \<Rightarrow> int \<Rightarrow> dstate \<Rightarrow> bool" where
  "inv_A g s st =
     (dist st s = Some (Fin 0) \<and>
      (\<forall>v. registered g v \<longrightarrow> dist st v \<noteq> None) \<and>
      (\<forall>v d. dist st v = Some d \<longrightarrow> fless d PInf \<longrightarrow> tree_path g s st v d) \<and>
      (\<forall>v p. (v, p) \<in># entries (pq st) \<longrightarrow> (\<exists>d. dist st v = Some d \<and> fless d PInf \<and> fle d p)) \<and>
      (\<forall>v d. dist st v = Some d \<longrightarrow> fless d PInf \<longrightarrow> \<not> getb (visited st) v \<longrightarrow> (v, d) \<in># entries (pq st)) \<and>
      (\<forall>v. getb (visited st) v \<longrightarrow> (\<exists>d. dist st v = Some d \<and> fless d PInf)) \<and>
      (\<not> getb (visited st) s \<longrightarrow> (\<forall>v p. (v, p) \<in># entries (pq st) \<longrightarrow> v = s)) \<and>
      (\<forall>v. getb (visited st) v \<longrightarrow> getb (visited st) s) \<and>
      (\<forall>v d. dist st v = Some d \<longrightarrow> d \<noteq> NaN) \<and>
      (\<forall>v. prev st v \<noteq> None \<longrightarrow> (\<exists>d. dist st v = Some d \<and> fless d PInf)))"

text \<open>
  The order of the priority queue. \<open>hle a b\<close> is what \<open>Less\<close> tells the heap: \<open>b\<close> is not
  less than \<open>a\<close>. \<open>heap_ok\<close> says that no item has a priority below its parent's, which
  is the invariant \<open>container/heap\<close> asks of its callers. \<open>up_inv q j\<close> and
  \<open>down_inv q i n\<close> are the order with one item out of place, as it stands inside the
  loops of \<open>up\<close> and \<open>down\<close>. \<open>no_nan\<close>: no priority is a NaN.
\<close>

definition hle :: "float64 \<Rightarrow> float64 \<Rightarrow> bool" where
  "hle a b = (\<not> fless b a)"

definition prio :: "priorityQueue \<Rightarrow> nat \<Rightarrow> float64" where
  "prio q i = priority (q ! i)"

definition no_nan :: "priorityQueue \<Rightarrow> bool" where
  "no_nan q = (\<forall>i < length q. prio q i \<noteq> NaN)"

definition heap_upto :: "priorityQueue \<Rightarrow> nat \<Rightarrow> bool" where
  "heap_upto q n = (\<forall>c. 0 < c \<and> c < n \<longrightarrow> hle (prio q ((c - 1) div 2)) (prio q c))"

definition heap_ok :: "priorityQueue \<Rightarrow> bool" where
  "heap_ok q = heap_upto q (length q)"

definition up_inv :: "priorityQueue \<Rightarrow> nat \<Rightarrow> bool" where
  "up_inv q j =
     ((\<forall>c. 0 < c \<and> c < length q \<and> c \<noteq> j \<longrightarrow> hle (prio q ((c - 1) div 2)) (prio q c)) \<and>
      (\<forall>c. 0 < c \<and> c < length q \<and> (c - 1) div 2 = j \<and> 0 < j \<longrightarrow>
           hle (prio q ((j - 1) div 2)) (prio q c)))"

definition down_inv :: "priorityQueue \<Rightarrow> nat \<Rightarrow> nat \<Rightarrow> bool" where
  "down_inv q i n =
     ((\<forall>c. 0 < c \<and> c < n \<and> (c - 1) div 2 \<noteq> i \<longrightarrow> hle (prio q ((c - 1) div 2)) (prio q c)) \<and>
      (\<forall>c. 0 < c \<and> c < n \<and> (c - 1) div 2 = i \<and> 0 < i \<longrightarrow>
           hle (prio q ((i - 1) div 2)) (prio q c)))"

text \<open>
  \<open>nonneg\<close>: every weight is at least 0 (so none is a NaN). The two further parts of the
  invariant of the loop of \<open>Dijkstra\<close> under that assumption: the distance of a visited
  node is a lower bound of the cost of every path from the source to it (\<open>lower_bound\<close>),
  and every edge from a visited node to an unvisited one has been relaxed, apart from the
  edges in \<open>U\<close>, which are those that the inner loop has yet to meet
  (\<open>relaxed_except\<close>). \<open>inv_B\<close> collects the invariant.
\<close>

definition nonneg :: "Graph \<Rightarrow> bool" where
  "nonneg g = (\<forall>u v w. edge g u v w \<longrightarrow> fle (Fin 0) w)"

definition lower_bound :: "Graph \<Rightarrow> int \<Rightarrow> dstate \<Rightarrow> bool" where
  "lower_bound g s st =
     (\<forall>u d p. getb (visited st) u \<longrightarrow> dist st u = Some d \<longrightarrow>
              is_path g p \<longrightarrow> hd p = s \<longrightarrow> last p = u \<longrightarrow> fle d (path_cost g p))"

definition relaxed_except :: "Graph \<Rightarrow> dstate \<Rightarrow> (int \<times> int) set \<Rightarrow> bool" where
  "relaxed_except g st U =
     (\<forall>x y w dx. getb (visited st) x \<longrightarrow> \<not> getb (visited st) y \<longrightarrow> edge g x y w \<longrightarrow> (x, y) \<notin> U \<longrightarrow>
                dist st x = Some dx \<longrightarrow> (\<exists>dy. dist st y = Some dy \<and> fle dy (fadd dx w)))"

definition inv_B :: "Graph \<Rightarrow> int \<Rightarrow> dstate \<Rightarrow> (int \<times> int) set \<Rightarrow> bool" where
  "inv_B g s st U = (inv_A g s st \<and> heap_ok (pq st) \<and> lower_bound g s st \<and> relaxed_except g st U)"

text \<open>
  The invariant of the loop of \<open>BFS\<close>. \<open>dval\<close> reads the map \<open>distance\<close> as Go does.
  \<open>bfs_tree\<close>: the \<open>parent\<close> links of a visited node lead back to the source along
  edges of the graph, and \<open>distance\<close> holds the number of those edges. \<open>bfs_base\<close>:
  every visited node has such a chain, the queue holds visited nodes without repetition
  in ascending order of distance, and the target, once visited, is in the queue.
  \<open>bfs_head\<close>: the distances of the visited nodes differ by at most one from those in the
  queue, and every edge that leaves a node already taken from the queue ends at a visited
  node at most one step further. \<open>bfs_mid\<close> is \<open>bfs_head\<close> inside the inner loop, where the
  neighbours \<open>P\<close> of the node \<open>u\<close> taken from the queue are yet to be met.
\<close>

definition dval :: "bstate \<Rightarrow> int \<Rightarrow> int" where
  "dval st v = geti (distance st) v"

definition bfs_tree :: "Graph \<Rightarrow> int \<Rightarrow> bstate \<Rightarrow> int \<Rightarrow> bool" where
  "bfs_tree g s st v =
     (\<exists>p. back_path (parent st) s v p \<and> is_path g (s # p) \<and> distance st v = Some (int (length p)) \<and>
          (\<forall>n \<in> set (s # p). getb (visited_b st) n))"

definition bfs_base :: "Graph \<Rightarrow> int \<Rightarrow> int \<Rightarrow> bstate \<Rightarrow> bool" where
  "bfs_base g s t st =
     (getb (visited_b st) s \<and>
      (\<forall>v. getb (visited_b st) v \<longrightarrow> bfs_tree g s st v) \<and>
      (\<forall>v \<in> set (queue st). getb (visited_b st) v) \<and>
      (getb (visited_b st) t \<longrightarrow> t \<in> set (queue st)) \<and>
      distinct (queue st) \<and> sorted (map (dval st) (queue st)))"

definition bfs_head :: "Graph \<Rightarrow> bstate \<Rightarrow> bool" where
  "bfs_head g st =
     ((\<forall>x \<in> set (queue st). \<forall>y. getb (visited_b st) y \<longrightarrow> dval st y \<le> dval st x + 1) \<and>
      (\<forall>x y w. getb (visited_b st) x \<longrightarrow> x \<notin> set (queue st) \<longrightarrow> edge g x y w \<longrightarrow>
                getb (visited_b st) y \<and> dval st y \<le> dval st x + 1) \<and>
      (\<forall>x y. getb (visited_b st) x \<longrightarrow> x \<notin> set (queue st) \<longrightarrow> y \<in> set (queue st) \<longrightarrow>
              dval st x \<le> dval st y))"

definition bfs_mid :: "Graph \<Rightarrow> bstate \<Rightarrow> int \<Rightarrow> int set \<Rightarrow> bool" where
  "bfs_mid g st u P =
     (getb (visited_b st) u \<and> u \<notin> set (queue st) \<and>
      (\<forall>y \<in> set (queue st). dval st u \<le> dval st y) \<and>
      (\<forall>y. getb (visited_b st) y \<longrightarrow> dval st y \<le> dval st u + 1) \<and>
      (\<forall>x y w. getb (visited_b st) x \<longrightarrow> x \<notin> set (queue st) \<longrightarrow> edge g x y w \<longrightarrow> (x = u \<longrightarrow> y \<notin> P) \<longrightarrow>
                getb (visited_b st) y \<and> dval st y \<le> dval st x + 1) \<and>
      (\<forall>x. getb (visited_b st) x \<longrightarrow> x \<notin> set (queue st) \<longrightarrow> dval st x \<le> dval st u))"

text \<open>
  \<open>unit_weights\<close>: every edge has weight 1. \<open>sched1\<close> is a second sample schedule, which
  ranges over every map in descending order of the keys up to 9 (\<open>sched0\<close> ranges in
  ascending order of the non-negative keys).
\<close>

definition unit_weights :: "Graph \<Rightarrow> bool" where
  "unit_weights g = (\<forall>u v w. edge g u v w \<longrightarrow> w = Fin 1)"

definition sched1 :: sched where
  "sched1 = \<lparr>nodes_ord = (\<lambda>n. nat (9 - n)), adj_ord = (\<lambda>n. nat (9 - n)), nbr_ord = (\<lambda>u n. nat (9 - n)),
             other_ord = (\<lambda>u n. nat (9 - n))\<rparr>"

section \<open>Rounding to binary64\<close>

lemma rne_int [simp]: "rne (of_int n) = n"
  by (simp add: rne_def)

lemma rne_0 [simp]: "rne 0 = 0"
  by (simp add: rne_def)

lemma rne_mono: "x \<le> y \<Longrightarrow> rne x \<le> rne y"
proof -
  assume xy: "x \<le> y"
  have fl: "\<lfloor>x\<rfloor> \<le> \<lfloor>y\<rfloor>" using xy by (rule floor_mono)
  show ?thesis
  proof (cases "\<lfloor>x\<rfloor> = \<lfloor>y\<rfloor>")
    case True
    then show ?thesis using xy by (auto simp: rne_def)
  next
    case False
    then have "\<lfloor>x\<rfloor> + 1 \<le> \<lfloor>y\<rfloor>" using fl by simp
    moreover have "rne x \<le> \<lfloor>x\<rfloor> + 1" by (simp add: rne_def)
    moreover have "\<lfloor>y\<rfloor> \<le> rne y" by (simp add: rne_def)
    ultimately show ?thesis by linarith
  qed
qed

lemma rne_err: "\<bar>of_int (rne x) - x\<bar> \<le> 1 / 2"
  unfolding rne_def by (auto simp: abs_if) linarith+

lemma ulp_pos [simp]: "0 < ulp x"
  by (simp add: ulp_def)

lemma expo_mono: "0 < x \<Longrightarrow> x \<le> y \<Longrightarrow> expo x \<le> expo y"
  unfolding expo_def by (intro max.mono order_refl floor_mono) simp

lemma expo_lower: "- 1022 \<le> expo x"
  by (simp add: expo_def)

lemma below_binade: "0 < x \<Longrightarrow> x < 2 powr (of_int (expo x) + 1)"
proof -
  assume x: "0 < x"
  have "log 2 x < of_int \<lfloor>log 2 x\<rfloor> + 1" by linarith
  also have "\<dots> \<le> of_int (expo x) + 1" by (simp add: expo_def)
  finally have "log 2 x < of_int (expo x) + 1" .
  then show ?thesis using x by (simp add: log_less_iff)
qed

lemma above_binade: "0 < x \<Longrightarrow> - 1022 < expo x \<Longrightarrow> 2 powr of_int (expo x) \<le> x"
proof -
  assume x: "0 < x" and e: "- 1022 < expo x"
  have "expo x = \<lfloor>log 2 x\<rfloor>" using e by (auto simp: expo_def max_def split: if_splits)
  then have "of_int (expo x) \<le> log 2 x" by simp
  then show ?thesis using x by (simp add: le_log_iff)
qed

lemma ulp_nonneg [simp]: "0 \<le> ulp x"
  by (simp add: ulp_def)

lemma ulp_53: "ulp x * 2 ^ 53 = 2 powr (of_int (expo x) + 1)"
proof -
  have "(2::real) powr (of_int (expo x) - 52) * 2 powr 53 = 2 powr (of_int (expo x) + 1)"
    by (subst powr_add [symmetric]) (simp add: add.commute)
  then show ?thesis by (simp add: ulp_def)
qed

lemma ulp_52: "ulp x * 2 ^ 52 = 2 powr of_int (expo x)"
proof -
  have "(2::real) powr (of_int (expo x) - 52) * 2 powr 52 = 2 powr of_int (expo x)"
    by (subst powr_add [symmetric]) simp
  then show ?thesis by (simp add: ulp_def)
qed

lemma ulp_scaled_upper: "0 < x \<Longrightarrow> x / ulp x < 2 ^ 53"
proof -
  assume x: "0 < x"
  have "x < 2 powr (of_int (expo x) + 1)" by (rule below_binade [OF x])
  also have "\<dots> = 2 ^ 53 * ulp x"
    by (simp only: ulp_53 [symmetric] mult.commute)
  finally show ?thesis
    by (simp only: pos_divide_less_eq [OF ulp_pos])
qed

lemma ulp_scaled_lower: "0 < x \<Longrightarrow> - 1022 < expo x \<Longrightarrow> 2 ^ 52 \<le> x / ulp x"
proof -
  assume x: "0 < x" and e: "- 1022 < expo x"
  have "2 ^ 52 * ulp x = 2 powr of_int (expo x)"
    by (simp only: ulp_52 [symmetric] mult.commute)
  also have "\<dots> \<le> x" by (rule above_binade [OF x e])
  finally show ?thesis
    by (simp only: pos_le_divide_eq [OF ulp_pos])
qed

lemma nearest_upper: "0 < x \<Longrightarrow> nearest x \<le> 2 powr (of_int (expo x) + 1)"
proof -
  assume x: "0 < x"
  have "rne (x / ulp x) \<le> rne (of_int (2 ^ 53))"
    by (rule rne_mono) (use ulp_scaled_upper [OF x] in simp)
  then have "rne (x / ulp x) \<le> 2 ^ 53" by (simp only: rne_int)
  then have "(of_int (rne (x / ulp x)) :: real) \<le> of_int (2 ^ 53)" by (simp only: of_int_le_iff)
  then have "(of_int (rne (x / ulp x)) :: real) \<le> 2 ^ 53" by simp
  then have "nearest x \<le> ulp x * 2 ^ 53"
    unfolding nearest_def by (rule mult_left_mono) simp
  then show ?thesis by (simp only: ulp_53)
qed

lemma nearest_lower: "0 < x \<Longrightarrow> - 1022 < expo x \<Longrightarrow> 2 powr of_int (expo x) \<le> nearest x"
proof -
  assume x: "0 < x" and e: "- 1022 < expo x"
  have "rne (of_int (2 ^ 52)) \<le> rne (x / ulp x)"
    by (rule rne_mono) (use ulp_scaled_lower [OF x e] in simp)
  then have "2 ^ 52 \<le> rne (x / ulp x)" by (simp only: rne_int)
  then have "(of_int (2 ^ 52) :: real) \<le> of_int (rne (x / ulp x))" by (simp only: of_int_le_iff)
  then have "(2 ^ 52 :: real) \<le> of_int (rne (x / ulp x))" by simp
  then have "ulp x * 2 ^ 52 \<le> nearest x"
    unfolding nearest_def by (rule mult_left_mono) simp
  then show ?thesis by (simp only: ulp_52)
qed

lemma nearest_nonneg: "0 \<le> x \<Longrightarrow> 0 \<le> nearest x"
proof -
  assume "0 \<le> x"
  then have "0 \<le> x / ulp x" by (intro divide_nonneg_nonneg) simp_all
  then have "rne (of_int 0) \<le> rne (x / ulp x)" by (intro rne_mono) simp
  then have "0 \<le> rne (x / ulp x)" by (simp only: rne_int)
  then show ?thesis by (simp add: nearest_def)
qed

lemma nearest_mono:
  assumes "0 < x" and "x \<le> y"
  shows "nearest x \<le> nearest y"
proof (cases "expo x = expo y")
  case True
  then have u: "ulp x = ulp y" by (simp add: ulp_def)
  have "x / ulp y \<le> y / ulp y"
    using assms(2) by (rule divide_right_mono) simp
  then have "rne (x / ulp y) \<le> rne (y / ulp y)" by (rule rne_mono)
  then have "(of_int (rne (x / ulp y)) :: real) \<le> of_int (rne (y / ulp y))" by simp
  then show ?thesis
    unfolding nearest_def u by (rule mult_left_mono) simp
next
  case False
  then have lt: "expo x < expo y" using expo_mono [OF assms] by simp
  have y: "0 < y" using assms by simp
  have "nearest x \<le> 2 powr (of_int (expo x) + 1)" by (rule nearest_upper [OF assms(1)])
  also have "\<dots> \<le> 2 powr of_int (expo y)" using lt by (intro powr_mono) simp_all
  also have "\<dots> \<le> nearest y"
    by (rule nearest_lower [OF y]) (use lt expo_lower [of x] in linarith)
  finally show ?thesis .
qed

lemma nearest_err: "\<bar>nearest x - x\<bar> \<le> ulp x / 2"
proof -
  have "ulp x \<noteq> 0" by (simp add: ulp_def)
  then have "nearest x - x = ulp x * (of_int (rne (x / ulp x)) - x / ulp x)"
    by (simp add: nearest_def right_diff_distrib)
  then have "\<bar>nearest x - x\<bar> = ulp x * \<bar>of_int (rne (x / ulp x)) - x / ulp x\<bar>"
    by (simp add: abs_mult)
  also have "\<dots> \<le> ulp x * (1 / 2)"
    by (rule mult_left_mono [OF rne_err]) simp
  finally show ?thesis by simp
qed

lemma expo_eq:
  assumes "0 < x" and "2 powr of_int e \<le> x" and "x < 2 powr (of_int e + 1)" and "- 1022 \<le> e"
  shows "expo x = e"
proof -
  have "\<lfloor>log 2 x\<rfloor> = e"
    using assms(1-3) by (subst floor_log_eq_powr_iff) simp_all
  then show ?thesis using assms(4) by (simp add: expo_def)
qed

lemma nearest_exact:
  assumes m: "0 < m" "m < 2 ^ 53" and k: "- 1074 \<le> k"
  shows "nearest (of_int m * 2 powr of_int k) = of_int m * 2 powr of_int k"
proof -
  define x :: real where "x = of_int m * 2 powr of_int k"
  have x: "0 < x" using m(1) by (simp add: x_def)
  have "(of_int m :: real) < 2 ^ 53" using m(2) by (metis of_int_less_iff of_int_numeral of_int_power)
  then have "x < 2 ^ 53 * 2 powr of_int k"
    unfolding x_def by (intro mult_strict_right_mono) simp_all
  also have "\<dots> = 2 powr (of_int k + 53)"
  proof -
    have "(2::real) powr 53 * 2 powr of_int k = 2 powr (of_int k + 53)"
      by (subst powr_add [symmetric]) (simp add: add.commute)
    then show ?thesis by simp
  qed
  finally have "log 2 x < of_int k + 53" using x by (simp add: log_less_iff)
  then have "\<lfloor>log 2 x\<rfloor> < k + 53" by (simp add: floor_less_iff)
  then have e: "expo x \<le> k + 52" using k by (simp add: expo_def)
  define j where "j = nat (k + 52 - expo x)"
  have kj: "real_of_int k = (of_int (expo x) - 52) + real j"
    using e by (simp add: j_def)
  have "(2::real) powr ((of_int (expo x) - 52) + real j) = 2 powr (of_int (expo x) - 52) * 2 ^ j"
    by (simp add: powr_add powr_realpow)
  then have p: "2 powr of_int k = ulp x * 2 ^ j"
    by (simp only: kj [symmetric] ulp_def)
  have u: "ulp x \<noteq> 0" by (simp add: ulp_def)
  have xe: "x = of_int m * (ulp x * 2 ^ j)"
    unfolding p [symmetric] by (rule x_def)
  have "x / ulp x = of_int m * (ulp x * 2 ^ j) / ulp x"
    using xe by simp
  then have "x / ulp x = of_int (m * 2 ^ j)" using u by simp
  then have "rne (x / ulp x) = m * 2 ^ j" by (simp only: rne_int)
  then have "nearest x = ulp x * of_int (m * 2 ^ j)" by (simp add: nearest_def)
  also have "\<dots> = of_int m * (ulp x * 2 ^ j)" by simp
  also have "\<dots> = x" by (rule xe [symmetric])
  finally show ?thesis by (simp only: x_def)
qed

lemma nearest_exact_le:
  assumes m: "0 < m" "m \<le> 2 ^ 53" and k: "- 1074 \<le> k"
  shows "nearest (of_int m * 2 powr of_int k) = of_int m * 2 powr of_int k"
proof (cases "m = 2 ^ 53")
  case False
  then show ?thesis using nearest_exact [of m k] m k by simp
next
  case True
  have "(2::real) ^ 53 * 2 powr of_int k = 2 ^ 52 * 2 powr (of_int k + 1)"
    by (simp add: powr_add)
  then have eq: "of_int m * 2 powr of_int k = (of_int (2 ^ 52) :: real) * 2 powr of_int (k + 1)"
    by (simp add: True)
  show ?thesis
    unfolding eq by (rule nearest_exact) (use k in simp_all)
qed

lemma nearest_idem: "0 < x \<Longrightarrow> nearest (nearest x) = nearest x"
proof -
  assume x: "0 < x"
  let ?m = "rne (x / ulp x)"
  have m0: "0 \<le> ?m"
  proof -
    have "rne (of_int 0) \<le> ?m" by (rule rne_mono) (use x in simp)
    then show ?thesis by (simp only: rne_int)
  qed
  have m1: "?m \<le> 2 ^ 53"
  proof -
    have "?m \<le> rne (of_int (2 ^ 53))"
      by (rule rne_mono) (use ulp_scaled_upper [OF x] in simp)
    then show ?thesis by (simp only: rne_int)
  qed
  have form: "nearest x = of_int ?m * 2 powr of_int (expo x - 52)"
    by (simp add: nearest_def ulp_def)
  show ?thesis
  proof (cases "?m = 0")
    case True
    then have z: "nearest x = 0" by (simp add: nearest_def)
    show ?thesis unfolding z by (simp add: nearest_def)
  next
    case False
    then have "0 < ?m" using m0 by simp
    from nearest_exact_le [OF this m1, of "expo x - 52"] expo_lower [of x]
    show ?thesis unfolding form by simp
  qed
qed

section \<open>Order and addition of \<open>float64\<close>\<close>

lemma fle_Fin [simp]: "fle (Fin x) (Fin y) \<longleftrightarrow> x \<le> y"
  by (auto simp: fle_def)

lemma fle_simps [simp]:
  "fle NInf b \<longleftrightarrow> b \<noteq> NaN"
  "fle a PInf \<longleftrightarrow> a \<noteq> NaN"
  "fle PInf b \<longleftrightarrow> b = PInf"
  "fle a NInf \<longleftrightarrow> a = NInf"
  "\<not> fle NaN b" "\<not> fle a NaN"
  by (cases a; cases b; auto simp: fle_def)+

lemma fle_refl: "a \<noteq> NaN \<Longrightarrow> fle a a"
  by (simp add: fle_def)

lemma fle_trans: "fle a b \<Longrightarrow> fle b c \<Longrightarrow> fle a c"
  by (cases a; cases b; cases c) simp_all

lemma fle_antisym: "fle a b \<Longrightarrow> fle b a \<Longrightarrow> a = b"
  by (cases a; cases b) simp_all

lemma fless_fle: "fless a b \<Longrightarrow> fle a b"
  by (simp add: fle_def)

lemma not_fless_fle: "a \<noteq> NaN \<Longrightarrow> b \<noteq> NaN \<Longrightarrow> \<not> fless a b \<Longrightarrow> fle b a"
  by (cases a; cases b) auto

lemma fle_not_fless: "fle a b \<Longrightarrow> \<not> fless b a"
  by (cases a; cases b) auto

lemma fless_not_NaN: "fless a b \<Longrightarrow> a \<noteq> NaN \<and> b \<noteq> NaN \<and> a \<noteq> PInf \<and> b \<noteq> NInf"
  by (cases a; cases b) auto

lemma fless_fle_trans: "fless a b \<Longrightarrow> fle b c \<Longrightarrow> fless a c"
  by (cases a; cases b; cases c) simp_all

lemma fle_fless_trans: "fle a b \<Longrightarrow> fless b c \<Longrightarrow> fless a c"
  by (cases a; cases b; cases c) simp_all

lemma fneg_fneg [simp]: "fneg (fneg a) = a"
  by (cases a) simp_all

lemma fle_fneg: "fle a b \<Longrightarrow> fle (fneg b) (fneg a)"
  by (cases a; cases b) simp_all

lemma round_pos_cases:
  "round_pos x = Fin 0 \<and> x = 0 \<or> round_pos x = PInf \<and> 2 ^ 1024 \<le> nearest x \<and> x \<noteq> 0
   \<or> round_pos x = Fin (nearest x) \<and> nearest x < 2 ^ 1024 \<and> x \<noteq> 0"
  by (auto simp: round_pos_def)

lemma round_pos_mono:
  assumes "0 \<le> x" and "x \<le> y"
  shows "fle (round_pos x) (round_pos y)"
proof (cases "x = 0")
  case True
  then show ?thesis
    using nearest_nonneg [of y] assms by (auto simp: round_pos_def)
next
  case False
  then have x: "0 < x" using assms by simp
  from nearest_mono [OF x assms(2)] show ?thesis
    using x assms(2) by (auto simp: round_pos_def)
qed

lemma round_pos_nonneg: "0 \<le> x \<Longrightarrow> fle (Fin 0) (round_pos x)"
  using nearest_nonneg [of x] by (auto simp: round_pos_def)

lemma round64_minus: "round64 (- x) = fneg (round64 x)"
  by (cases "x = 0") (auto simp: round64_def round_pos_def)

lemma round64_mono:
  assumes "x \<le> y"
  shows "fle (round64 x) (round64 y)"
proof -
  consider "0 \<le> x" | "y < 0" | "x < 0" "0 \<le> y" using assms by linarith
  then show ?thesis
  proof cases
    case 1
    then show ?thesis using assms by (simp add: round64_def round_pos_mono)
  next
    case 2
    then have "fle (round_pos (- y)) (round_pos (- x))"
      using assms by (intro round_pos_mono) simp_all
    then show ?thesis using 2 assms by (simp add: round64_def fle_fneg)
  next
    case 3
    have "fle (round_pos 0) (round_pos (- x))" using 3 by (intro round_pos_mono) simp_all
    then have "fle (fneg (round_pos (- x))) (Fin 0)"
      using fle_fneg [of "Fin 0" "round_pos (- x)"] by (simp add: round_pos_def)
    moreover have "fle (Fin 0) (round_pos y)" by (rule round_pos_nonneg [OF 3(2)])
    ultimately show ?thesis using 3 by (simp add: round64_def) (rule fle_trans)
  qed
qed

lemma round64_not_NaN [simp]: "round64 x \<noteq> NaN"
  by (auto simp: round64_def round_pos_def)

lemma round_pos_idem: "0 \<le> x \<Longrightarrow> round_pos x = Fin y \<Longrightarrow> round_pos y = Fin y"
proof -
  assume x: "0 \<le> x" and r: "round_pos x = Fin y"
  show ?thesis
  proof (cases "x = 0")
    case True
    then show ?thesis using r by (simp add: round_pos_def)
  next
    case False
    then have y: "y = nearest x" "nearest x < 2 ^ 1024"
      using r by (auto simp: round_pos_def split: if_splits)
    have "nearest y = y" unfolding y by (rule nearest_idem) (use x False in simp)
    then show ?thesis using y by (simp add: round_pos_def)
  qed
qed

lemma round_pos_value_nonneg: "0 \<le> x \<Longrightarrow> round_pos x = Fin y \<Longrightarrow> 0 \<le> y"
  using round_pos_nonneg [of x] by simp

lemma round64_idem: "round64 x = Fin y \<Longrightarrow> round64 y = Fin y"
proof (cases "x < 0")
  case False
  assume r: "round64 x = Fin y"
  then have rp: "round_pos x = Fin y" using False by (simp add: round64_def)
  then have "0 \<le> y" using round_pos_value_nonneg [of x y] False by simp
  then show ?thesis using round_pos_idem [OF _ rp] False by (simp add: round64_def)
next
  case True
  assume r: "round64 x = Fin y"
  then have "fneg (round_pos (- x)) = Fin y" using True by (simp add: round64_def)
  then have rp: "round_pos (- x) = Fin (- y)"
    by (cases "round_pos (- x)") auto
  then have ny: "0 \<le> - y" using round_pos_value_nonneg [of "- x" "- y"] True by simp
  have "round_pos (- y) = Fin (- y)" using round_pos_idem [OF _ rp] True by simp
  then have "round64 (- (- y)) = fneg (Fin (- y))"
    using ny by (subst round64_minus) (simp add: round64_def)
  then show ?thesis by simp
qed

lemma round64_0 [simp]: "round64 0 = Fin 0"
  by (simp add: round64_def round_pos_def)

lemma round64_representable: "representable (round64 x)"
  by (cases "round64 x") (auto dest: round64_idem)

lemma fadd_representable: "representable (fadd a b)"
  by (cases a; cases b) (simp_all add: round64_representable)

lemma fadd_zero: "representable x \<Longrightarrow> fadd x (Fin 0) = x"
  by (cases x) simp_all

lemma fadd_fadd_zero [simp]: "fadd (fadd a b) (Fin 0) = fadd a b"
  by (rule fadd_zero [OF fadd_representable])

lemma round64_nonneg: "0 \<le> x \<Longrightarrow> fle (Fin 0) (round64 x)"
  using round64_mono [of 0 x] by simp

lemma fadd_nonneg: "fle (Fin 0) a \<Longrightarrow> fle (Fin 0) w \<Longrightarrow> fle (Fin 0) (fadd a w)"
  by (cases a; cases w) (simp_all add: round64_nonneg)

lemma fadd_mono: "fle a b \<Longrightarrow> fle (Fin 0) a \<Longrightarrow> fle (Fin 0) w \<Longrightarrow> fle (fadd a w) (fadd b w)"
  by (cases a; cases b; cases w) (simp_all add: round64_mono)

lemma fadd_infl:
  assumes "representable a" and "fle (Fin 0) a" and "fle (Fin 0) w"
  shows "fle a (fadd a w)"
proof (cases a)
  case (Fin x)
  show ?thesis
  proof (cases w)
    case w: (Fin y)
    have "fle (round64 x) (round64 (x + y))"
      by (rule round64_mono) (use assms(3) w in simp)
    then show ?thesis using assms(1) Fin w by simp
  qed (use assms Fin in simp_all)
qed (use assms in \<open>cases w; simp_all\<close>)+

lemma round64_int:
  assumes "\<bar>n\<bar> \<le> 2 ^ 53"
  shows "round64 (of_int n) = Fin (of_int n)"
proof -
  have pos: "round64 (of_int m) = Fin (of_int m)" if m: "0 < m" "m \<le> 2 ^ 53" for m :: int
  proof -
    have "(of_int m :: real) \<le> 2 ^ 53" using m(2) by (metis of_int_le_iff of_int_numeral of_int_power)
    then have small: "(of_int m :: real) < 2 ^ 1024"
      by (rule order_le_less_trans) simp
    have "nearest (of_int m * 2 powr of_int 0) = of_int m * 2 powr of_int 0"
      by (rule nearest_exact_le [OF m]) simp
    then have "nearest (of_int m) = of_int m" by simp
    then show ?thesis using m(1) small by (simp add: round64_def round_pos_def)
  qed
  consider "n = 0" | "0 < n" | "n < 0" by linarith
  then show ?thesis
  proof cases
    case 1
    then show ?thesis by simp
  next
    case 2
    then show ?thesis using pos [of n] assms by simp
  next
    case 3
    then have "round64 (of_int (- n)) = Fin (of_int (- n))" using pos [of "- n"] assms by simp
    then have "round64 (- of_int n) = Fin (- of_int n)" by simp
    then show ?thesis unfolding round64_minus by (cases "round64 (of_int n)") auto
  qed
qed

lemma round64_numeral: "numeral n \<le> (2 :: int) ^ 53 \<Longrightarrow> round64 (numeral n) = Fin (numeral n)"
  using round64_int [of "numeral n"] by simp

lemma round64_neg_numeral: "numeral n \<le> (2 :: int) ^ 53 \<Longrightarrow> round64 (- numeral n) = Fin (- numeral n)"
  using round64_int [of "- numeral n"] by simp

lemma round64_1 [simp]: "round64 1 = Fin 1"
  using round64_int [of 1] by simp

lemma round64_neg_1 [simp]: "round64 (- 1) = Fin (- 1)"
  using round64_int [of "- 1"] by simp

lemma round64_pow2: "k \<le> 1023 \<Longrightarrow> round64 (2 ^ k) = Fin (2 ^ k)"
proof -
  assume k: "k \<le> 1023"
  have "nearest (of_int 1 * 2 powr of_int (int k)) = of_int 1 * 2 powr of_int (int k)"
    by (rule nearest_exact) simp_all
  then have n: "nearest (2 ^ k) = 2 ^ k" by (simp add: powr_realpow)
  have "(2::real) ^ k < 2 ^ 1024" using k by (intro power_strict_increasing) simp_all
  then show ?thesis using n by (simp add: round64_def round_pos_def)
qed

lemma round64_overflow: "2 ^ 1024 \<le> x \<Longrightarrow> round64 x = PInf"
proof -
  assume x: "2 ^ 1024 \<le> x"
  have "nearest (of_int 1 * 2 powr of_int 1024) = of_int 1 * 2 powr of_int 1024"
    by (rule nearest_exact) simp_all
  then have "nearest (2 ^ 1024) = 2 ^ 1024"
    using powr_realpow [of 2 1024] by simp
  then have "round64 (2 ^ 1024) = PInf" by (simp add: round64_def round_pos_def)
  then show ?thesis using round64_mono [OF x] by simp
qed

lemma round64_underflow: "x \<le> - (2 ^ 1024) \<Longrightarrow> round64 x = NInf"
proof -
  assume "x \<le> - (2 ^ 1024)"
  then have "round64 (- x) = PInf" by (intro round64_overflow) simp
  then show ?thesis unfolding round64_minus by (cases "round64 x") auto
qed

lemma round64_tie: "round64 (2 ^ 53 + 1) = Fin (2 ^ 53)"
proof -
  define x :: real where "x = 2 ^ 53 + 1"
  have x0: "0 < x" "x \<noteq> 0" "\<not> x < 0" by (simp_all add: x_def)
  have e: "expo x = 53"
    by (rule expo_eq) (simp_all add: x_def powr_add)
  then have u: "ulp x = 2" by (simp add: ulp_def)
  have h: "x / 2 = 2 ^ 52 + 1 / 2" by (simp add: x_def)
  have "\<lfloor>x / 2\<rfloor> = 2 ^ 52" unfolding h by (simp add: floor_eq_iff)
  then have "rne (x / 2) = 2 ^ 52" using h by (simp add: rne_def)
  then have "nearest x = 2 ^ 53" by (simp add: nearest_def u)
  then have "round64 x = Fin (2 ^ 53)" using x0 by (simp add: round64_def round_pos_def)
  then show ?thesis by (simp only: x_def)
qed

lemma round64_even: "round64 (2 ^ 53 + 2) = Fin (2 ^ 53 + 2)"
proof -
  have "nearest (of_int (2 ^ 52 + 1) * 2 powr of_int 1) = of_int (2 ^ 52 + 1) * 2 powr of_int 1"
    by (rule nearest_exact) simp_all
  then have "nearest (2 ^ 53 + 2) = 2 ^ 53 + 2" by simp
  then show ?thesis by (simp add: round64_def round_pos_def)
qed

lemma round64_near:
  assumes "\<bar>x\<bar> \<le> 2 ^ 51"
  shows "\<exists>y. round64 x = Fin y \<and> \<bar>y - x\<bar> \<le> 1 / 4"
proof -
  have pos: "\<exists>y. round_pos x = Fin y \<and> \<bar>y - x\<bar> \<le> 1 / 4" if x: "0 \<le> x" "x \<le> 2 ^ 51" for x
  proof (cases "x = 0")
    case True
    then show ?thesis by (simp add: round_pos_def)
  next
    case False
    then have x0: "0 < x" using x by simp
    have "x < 2 powr 52" using x(2) by (simp add: order_le_less_trans [of x "2 ^ 51"])
    then have "log 2 x < 52" using x0 by (simp add: log_less_iff)
    then have "\<lfloor>log 2 x\<rfloor> < 52" by (simp add: floor_less_iff)
    then have "expo x \<le> 51" by (simp add: expo_def)
    then have "ulp x \<le> 2 powr (- 1)" unfolding ulp_def by (intro powr_mono) simp_all
    then have u: "ulp x \<le> 1 / 2" by (simp add: powr_minus_divide)
    have err: "\<bar>nearest x - x\<bar> \<le> 1 / 4" using nearest_err [of x] u by simp
    then have "nearest x \<le> x + 1 / 4" by linarith
    also have "\<dots> \<le> 2 ^ 51 + 1 / 4" using x(2) by simp
    also have "\<dots> < 2 ^ 1024" by simp
    finally have "nearest x < 2 ^ 1024" .
    then show ?thesis using False err by (simp add: round_pos_def)
  qed
  show ?thesis
  proof (cases "x < 0")
    case False
    then show ?thesis using pos [of x] assms by (simp add: round64_def)
  next
    case True
    then obtain y where y: "round_pos (- x) = Fin y" "\<bar>y - (- x)\<bar> \<le> 1 / 4"
      using pos [of "- x"] assms by auto
    have "\<bar>- y - x\<bar> = \<bar>y - (- x)\<bar>" by (simp add: abs_minus_commute)
    then have "\<bar>- y - x\<bar> \<le> 1 / 4" using y(2) by simp
    then show ?thesis using True y(1) by (intro exI [of _ "- y"]) (simp add: round64_def)
  qed
qed

section \<open>Unfolding rules for the loops\<close>

lemma up_root: "up q 0 = q"
  by (subst up.simps) simp

lemma up_pos:
  "0 < j \<Longrightarrow>
   up q j = (if Less q j ((j - 1) div 2) then up (Swap q ((j - 1) div 2) j) ((j - 1) div 2) else q)"
  by (subst up.simps) (auto simp: Let_def)

lemma down_leaf: "n \<le> 2 * i + 1 \<Longrightarrow> down q i n = q"
  by (subst down.simps) simp

lemma down_inner:
  "2 * i + 1 < n \<Longrightarrow>
   down q i n =
     (if Less q (if 2 * i + 2 < n \<and> Less q (2 * i + 2) (2 * i + 1) then 2 * i + 2 else 2 * i + 1) i
      then down (Swap q i (if 2 * i + 2 < n \<and> Less q (2 * i + 2) (2 * i + 1)
                           then 2 * i + 2 else 2 * i + 1))
             (if 2 * i + 2 < n \<and> Less q (2 * i + 2) (2 * i + 1) then 2 * i + 2 else 2 * i + 1) n
      else q)"
  by (subst down.simps) (simp add: Let_def)

lemma dijkstra_loop_done: "pq st = [] \<Longrightarrow> dijkstra_loop sch g t st = st"
  by (subst dijkstra_loop.simps) simp

lemma dijkstra_loop_turn:
  "pq st \<noteq> [] \<Longrightarrow>
   dijkstra_loop sch g t st =
     (if fst (dijkstra_body sch g t st) then dijkstra_loop sch g t (snd (dijkstra_body sch g t st))
      else snd (dijkstra_body sch g t st))"
  by (subst dijkstra_loop.simps) (simp split: prod.splits)

lemma astar_loop_done: "pq st = [] \<Longrightarrow> astar_loop sch g h t st = st"
  by (subst astar_loop.simps) simp

lemma astar_loop_turn:
  "pq st \<noteq> [] \<Longrightarrow>
   astar_loop sch g h t st =
     (if fst (astar_body sch g h t st) then astar_loop sch g h t (snd (astar_body sch g h t st))
      else snd (astar_body sch g h t st))"
  by (subst astar_loop.simps) (simp split: prod.splits)

lemma walk_back_done: "walk_back prv s s path = Some path"
  by (subst walk_back.simps) simp

lemma walk_back_turn:
  "n \<noteq> s \<Longrightarrow> walk_back prv s n path = walk_back prv s (geti prv n) (n # path)"
  by (subst walk_back.simps) simp

text \<open>The initial distances do not depend on the order in which the registry is ranged over.\<close>

lemma fold_init_dist:
  "fold (\<lambda>(n, b) d. d(n \<mapsto> PInf)) es d0 = (\<lambda>n. if n \<in> fst ` set es then Some PInf else d0 n)"
  by (induction es arbitrary: d0) (auto simp: fun_eq_iff)

lemma init_dist_eq:
  "init_dist ord g source =
     (\<lambda>n. if n = source then Some (Fin 0)
          else if n \<in> fst ` set (nodes g) then Some PInf else None)"
  unfolding init_dist_def fold_init_dist keys_go_range by (simp add: fun_eq_iff)

lemmas heap_eval = heap_Init_def heap_Push_def heap_Pop_def Push_def Pop_def Swap_def Less_def
  up_root up_pos down_leaf down_inner

lemmas graph_eval = AddEdge_def NewGraph_def go_range_def row_def

lemmas float_eval = round64_numeral round64_neg_numeral

lemmas get_eval = getf_def geti_def getb_def

lemmas dijkstra_eval = heap_eval graph_eval get_eval float_eval Dijkstra_def init_state_def init_dist_eq
  dijkstra_body_def relax_dijkstra_def reconstruct_def dijkstra_loop_done dijkstra_loop_turn
  walk_back_done walk_back_turn Let_def

section \<open>A* with the zero heuristic\<close>

lemma relax_astar_zero: "relax_astar (\<lambda>_ _. Fin 0) t u = relax_dijkstra u"
  by (simp add: fun_eq_iff relax_astar_def relax_dijkstra_def Let_def split: prod.splits)

lemma astar_body_zero: "astar_body sch g (\<lambda>_ _. Fin 0) t st = dijkstra_body sch g t st"
  by (simp add: astar_body_def dijkstra_body_def relax_astar_zero Let_def split: prod.splits)

lemma astar_loop_zero: "astar_loop sch g (\<lambda>_ _. Fin 0) t st = dijkstra_loop sch g t st"
proof (induction sch g t st rule: dijkstra_loop.induct)
  case (1 sch g t st)
  show ?case
  proof (cases "pq st = []")
    case True
    then show ?thesis by (simp add: astar_loop_done dijkstra_loop_done)
  next
    case False
    obtain b st' where body: "dijkstra_body sch g t st = (b, st')"
      by (cases "dijkstra_body sch g t st")
    show ?thesis
    proof (cases b)
      case True
      with 1 [OF False body [symmetric]] body False show ?thesis
        by (simp add: astar_loop_turn dijkstra_loop_turn astar_body_zero)
    next
      case b: False
      with body False show ?thesis
        by (simp add: astar_loop_turn dijkstra_loop_turn astar_body_zero)
    qed
  qed
qed

lemma astar_zero_dijkstra: "AStar sch g s t (\<lambda>_ _. Fin 0) = Dijkstra sch g s t"
  by (simp add: AStar_def Dijkstra_def astar_loop_zero)

section \<open>Bellman-Ford: passes and check\<close>

lemma bf_relax_relax_edge: "bf_relax u (v, w) d = relax_edge (u, v, w) d"
  by (simp add: bf_relax_def relax_edge_def improves_def)

lemma fold_bf_relax: "fold (bf_relax u) es d = fold relax_edge (map (\<lambda>(v, w). (u, v, w)) es) d"
  by (induction es arbitrary: d) (auto simp: bf_relax_relax_edge)

lemma bf_pass_edges: "bf_pass sch g d = fold relax_edge (pass_edges sch g) d"
proof -
  have "fold (\<lambda>(from, r) d. fold (bf_relax from) (go_range (nbr_ord sch from) (row g from)) d) rs d
        = fold relax_edge (concat (map (\<lambda>(u, r). map (\<lambda>(v, w). (u, v, w)) (go_range (nbr_ord sch u) (row g u))) rs)) d"
    for rs
    by (induction rs arbitrary: d) (auto simp: fold_bf_relax)
  then show ?thesis by (simp add: bf_pass_def pass_edges_def)
qed

lemma row_key: "map_of (adjacency g) u = Some r \<Longrightarrow> row g u = r"
  by (simp add: row_def)

lemma edge_key: "edge g u v w \<Longrightarrow> u \<in> fst ` set (adjacency g)"
  by (cases "map_of (adjacency g) u") (auto simp: edge_def row_def dest: map_of_SomeD intro: rev_image_eqI)

lemma set_pass_edges: "set (pass_edges sch g) = {(u, v, w). edge g u v w}"
proof (intro set_eqI iffI; clarify)
  fix u v w
  assume "(u, v, w) \<in> set (pass_edges sch g)"
  then obtain r where "(u, r) \<in> set (go_range (adj_ord sch) (adjacency g))"
    and "(v, w) \<in> set (go_range (nbr_ord sch u) (row g u))"
    by (auto simp: pass_edges_def simp del: set_go_range)
  then show "edge g u v w"
    by (simp add: go_range_iff edge_def del: set_go_range)
next
  fix u v w
  assume e: "edge g u v w"
  then obtain r where r: "map_of (adjacency g) u = Some r"
    by (cases "map_of (adjacency g) u") (auto simp: edge_def row_def)
  then have "(u, r) \<in> set (go_range (adj_ord sch) (adjacency g))"
    by (simp add: go_range_iff del: set_go_range)
  moreover have "(v, w) \<in> set (go_range (nbr_ord sch u) (row g u))"
    using e by (simp add: go_range_iff edge_def del: set_go_range)
  ultimately show "(u, v, w) \<in> set (pass_edges sch g)"
    by (force simp: pass_edges_def simp del: set_go_range)
qed

lemma bf_check_row_iff:
  "bf_check_row u es d \<longleftrightarrow> (\<exists>(v, w) \<in> set es. improves d u v w)"
  by (induction es) (auto simp: improves_def)

lemma bf_check_iff:
  "bf_check sch g rs d \<longleftrightarrow>
     (\<exists>(u, r) \<in> set rs. \<exists>(v, w) \<in> set (go_range (nbr_ord sch u) (row g u)). improves d u v w)"
proof (induction rs)
  case Nil
  show ?case by simp
next
  case (Cons x rs)
  obtain u r where x: "x = (u, r)" by (cases x)
  show ?case
    unfolding x by (simp add: Cons.IH bf_check_row_iff del: set_go_range)
qed

lemma bf_check_edges:
  "bf_check sch g (go_range (adj_ord sch) (adjacency g)) d \<longleftrightarrow>
     (\<exists>u v w. edge g u v w \<and> improves d u v w)"
proof -
  have "bf_check sch g (go_range (adj_ord sch) (adjacency g)) d \<longleftrightarrow>
          (\<exists>(u, v, w) \<in> set (pass_edges sch g). improves d u v w)"
    unfolding bf_check_iff pass_edges_def by (force simp del: set_go_range)
  then show ?thesis by (auto simp: set_pass_edges)
qed


lemma distinct_pass_edges: "distinct (pass_edges sch g)"
proof -
  have "distinct (concat (map (\<lambda>(u, r). map (\<lambda>(v, w). (u, v, w)) (go_range (nbr_ord sch u) (row g u))) rs))"
    if "distinct (map fst rs)" for rs :: "(int \<times> (int \<times> float64) list) list"
    using that
  proof (induction rs)
    case Nil
    show ?case by simp
  next
    case (Cons x rs)
    obtain u r where x: "x = (u, r)" by (cases x)
    have inj: "inj_on (\<lambda>(v, w). (u, v, w)) A" for A :: "(int \<times> float64) set"
      by (auto simp: inj_on_def)
    have "distinct (go_range (nbr_ord sch u) (row g u))"
      using distinct_go_range [of "nbr_ord sch u" "row g u"] by (simp add: distinct_map del: set_go_range)
    then have "distinct (map (\<lambda>(v, w). (u, v, w)) (go_range (nbr_ord sch u) (row g u)))"
      by (simp add: distinct_map inj_on_def del: set_go_range)
    moreover have "u \<notin> fst ` set rs" and "distinct (map fst rs)"
      using Cons.prems by (auto simp: x)
    ultimately show ?case
      using Cons.IH unfolding x by (force simp del: set_go_range)
  qed
  then show ?thesis
    unfolding pass_edges_def using distinct_go_range by blast
qed

lemma go_len_card: "go_len m = card (fst ` set m)"
proof -
  have "go_len m = length (map fst (AList.clearjunk m))"
    by (simp add: go_len_def)
  also have "\<dots> = card (set (map fst (AList.clearjunk m)))"
    by (rule distinct_card [symmetric]) simp
  finally show ?thesis by (simp add: dom_clearjunk)
qed

section \<open>The graph store keeps its invariant\<close>

lemma registered_iff: "registered g n \<longleftrightarrow> n \<in> fst ` set (nodes g)"
  by (simp add: registered_def map_of_eq_None_iff)

lemma map_of_adjacency_AddEdge:
  "map_of (adjacency (AddEdge g a b w)) = (map_of (adjacency g))(a \<mapsto> AList.update b w (row g a))"
  by (auto simp: AddEdge_def Let_def row_def update_conv' fun_eq_iff split: option.splits)

lemma row_AddEdge:
  "row (AddEdge g a b w) u = (if u = a then AList.update b w (row g a) else row g u)"
  unfolding row_def [of "AddEdge g a b w"] map_of_adjacency_AddEdge
  by (simp add: row_def)

lemma keys_adjacency_AddEdge:
  "fst ` set (adjacency (AddEdge g a b w)) = insert a (fst ` set (adjacency g))"
  by (auto simp: AddEdge_def Let_def dom_update)

lemma map_of_nodes_AddEdge:
  "map_of (nodes (AddEdge g a b w)) = (map_of (nodes g))(a \<mapsto> True, b \<mapsto> True)"
  by (simp add: AddEdge_def Let_def update_conv')

lemma registered_AddEdge:
  "registered (AddEdge g a b w) n \<longleftrightarrow> n = a \<or> n = b \<or> registered g n"
  by (auto simp: registered_def map_of_nodes_AddEdge)

lemma edge_AddEdge:
  "edge (AddEdge g a b w) u v x \<longleftrightarrow> (if u = a \<and> v = b then x = w else edge g u v x)"
  by (auto simp: edge_def row_AddEdge update_conv')

lemma graph_inv_NewGraph: "graph_inv NewGraph"
  by (simp add: graph_inv_def NewGraph_def)

lemma graph_inv_AddEdge:
  assumes "graph_inv g"
  shows "graph_inv (AddEdge g a b w)"
proof -
  have 1: "\<forall>u \<in> fst ` set (adjacency g). registered g u"
    and 2: "\<forall>u \<in> fst ` set (adjacency g). \<forall>v \<in> fst ` set (row g u). registered g v"
    and 3: "\<forall>n \<in> fst ` set (nodes g). map_of (nodes g) n = Some True"
    using assms by (auto simp: graph_inv_def)
  have row_a: "\<forall>v \<in> fst ` set (row g a). registered g v"
  proof (cases "a \<in> fst ` set (adjacency g)")
    case True
    then show ?thesis using 2 by blast
  next
    case False
    then show ?thesis by (simp add: row_not_key)
  qed
  have "\<forall>n \<in> fst ` set (nodes (AddEdge g a b w)). map_of (nodes (AddEdge g a b w)) n = Some True"
  proof
    fix n assume "n \<in> fst ` set (nodes (AddEdge g a b w))"
    then have "registered (AddEdge g a b w) n" by (simp add: registered_iff)
    then have "n = a \<or> n = b \<or> registered g n"
      by (simp add: registered_AddEdge)
    then show "map_of (nodes (AddEdge g a b w)) n = Some True"
      using 3 by (auto simp: map_of_nodes_AddEdge registered_iff)
  qed
  moreover have "\<forall>u \<in> fst ` set (adjacency (AddEdge g a b w)). registered (AddEdge g a b w) u"
    unfolding keys_adjacency_AddEdge using 1 by (simp add: registered_AddEdge)
  moreover have "\<forall>u \<in> fst ` set (adjacency (AddEdge g a b w)).
                   \<forall>v \<in> fst ` set (row (AddEdge g a b w) u). registered (AddEdge g a b w) v"
  proof (intro ballI)
    fix u v
    assume u: "u \<in> fst ` set (adjacency (AddEdge g a b w))"
      and v: "v \<in> fst ` set (row (AddEdge g a b w) u)"
    show "registered (AddEdge g a b w) v"
    proof (cases "u = a")
      case True
      then have "v \<in> insert b (fst ` set (row g a))"
        using v by (simp add: row_AddEdge dom_update)
      then show ?thesis using row_a by (auto simp: registered_AddEdge)
    next
      case False
      then have "u \<in> fst ` set (adjacency g)" and "v \<in> fst ` set (row g u)"
        using u v by (simp_all add: keys_adjacency_AddEdge row_AddEdge)
      then have "registered g v" using 2 by blast
      then show ?thesis by (simp add: registered_AddEdge)
    qed
  qed
  ultimately show ?thesis
    unfolding graph_inv_def by blast
qed

lemma graph_inv_AddUndirectedEdge: "graph_inv g \<Longrightarrow> graph_inv (AddUndirectedEdge g a b w)"
  by (simp add: AddUndirectedEdge_def graph_inv_AddEdge)

lemma graph_inv_neighbor:
  assumes "graph_inv g" and "v \<in> fst ` set (row g u)"
  shows "registered g v"
proof (cases "u \<in> fst ` set (adjacency g)")
  case True
  then show ?thesis using assms by (auto simp: graph_inv_def)
next
  case False
  then show ?thesis using assms(2) by (simp add: row_not_key)
qed

section \<open>Connected components\<close>

lemma vset_upd [simp]: "vset (vis(v \<mapsto> True)) = insert v (vset vis)"
  by (auto simp: vset_def getb_def)

lemma vset_upd' [simp]: "vset (\<lambda>a. if a = v then Some True else vis a) = insert v (vset vis)"
  by (auto simp: vset_def getb_def)

lemma vset_empty [simp]: "vset Map.empty = {}"
  by (simp add: vset_def getb_def)

lemma getb_vset: "getb vis n \<longleftrightarrow> n \<in> vset vis"
  by (simp add: vset_def)

lemma dfs_run_spec:
  assumes "graph_inv g" and "\<forall>f \<in> set stack. \<forall>v \<in> set f. registered g v"
  shows "\<exists>new. snd (dfs_run sch g stack st) = snd st @ new \<and> distinct new \<and>
               set new \<inter> vset (fst st) = {} \<and>
               vset (fst (dfs_run sch g stack st)) = vset (fst st) \<union> set new \<and>
               (\<forall>v \<in> set new. registered g v)"
  using assms
proof (induction sch g stack st rule: dfs_run.induct)
  case (1 sch g st)
  show ?case by simp
next
  case (2 sch g stack st)
  then show ?case by simp
next
  case (3 sch g v vs stack vis acc)
  show ?case
  proof (cases "getb vis v")
    case True
    with 3(2) 3(3,4) show ?thesis by simp
  next
    case False
    have v: "registered g v" using 3(4) by simp
    have "\<forall>f \<in> set (neighbors sch g v # vs # stack). \<forall>x \<in> set f. registered g x"
      using 3(4) graph_inv_neighbor [OF 3(3)] by auto
    from 3(1) [OF False 3(3) this]
    have "\<exists>new. snd (dfs_run sch g (neighbors sch g v # vs # stack) (vis(v \<mapsto> True), acc @ [v]))
                   = acc @ v # new \<and>
             distinct new \<and> set new \<inter> insert v (vset vis) = {} \<and>
             vset (fst (dfs_run sch g (neighbors sch g v # vs # stack) (vis(v \<mapsto> True), acc @ [v])))
               = insert v (vset vis) \<union> set new \<and>
             (\<forall>x \<in> set new. registered g x)"
      by simp
    then obtain new where new:
      "snd (dfs_run sch g (neighbors sch g v # vs # stack) (vis(v \<mapsto> True), acc @ [v])) = acc @ v # new"
      "distinct new" "set new \<inter> insert v (vset vis) = {}"
      "vset (fst (dfs_run sch g (neighbors sch g v # vs # stack) (vis(v \<mapsto> True), acc @ [v])))
         = insert v (vset vis) \<union> set new"
      "\<forall>x \<in> set new. registered g x"
      by blast
    have "v \<notin> vset vis" using False by (simp add: getb_vset)
    with new v show ?thesis
      using False by (intro exI [of _ "v # new"]) auto
  qed
qed


lemma cc_step_spec:
  assumes "graph_inv g" and "registered g n" and "cc_inv g s"
  shows "cc_inv g (cc_step sch g n s) \<and> n \<in> vset (fst (cc_step sch g n s)) \<and>
         vset (fst s) \<subseteq> vset (fst (cc_step sch g n s))"
proof -
  obtain vis comps where s: "s = (vis, comps)" by (cases s)
  show ?thesis
  proof (cases "getb vis n")
    case True
    then show ?thesis using assms(3) by (simp add: cc_step_def s getb_vset)
  next
    case False
    have "\<forall>f \<in> set [neighbors sch g n]. \<forall>v \<in> set f. registered g v"
      using graph_inv_neighbor [OF assms(1)] by auto
    from dfs_run_spec [OF assms(1) this, of sch "(vis(n \<mapsto> True), [n])"]
    obtain new where new:
      "snd (dfs_run sch g [neighbors sch g n] (vis(n \<mapsto> True), [n])) = n # new"
      "distinct new" "set new \<inter> insert n (vset vis) = {}"
      "vset (fst (dfs_run sch g [neighbors sch g n] (vis(n \<mapsto> True), [n])))
         = insert n (vset vis) \<union> set new"
      "\<forall>x \<in> set new. registered g x"
      by auto
    obtain vis' component where run: "dfs_run sch g [neighbors sch g n] (vis(n \<mapsto> True), [n]) = (vis', component)"
      by (cases "dfs_run sch g [neighbors sch g n] (vis(n \<mapsto> True), [n])")
    have step: "cc_step sch g n (vis, comps) = (vis', comps @ [n # new])"
      using False new(1) by (simp add: cc_step_def dfs_def run)
    have "n \<notin> vset vis" using False by (simp add: getb_vset)
    then show ?thesis
      using assms(2,3) new run unfolding s step cc_inv_def by auto
  qed
qed

lemma cc_fold_spec:
  assumes "graph_inv g" and "\<forall>n \<in> set ns. registered g n" and "cc_inv g s"
  shows "cc_inv g (fold (cc_step sch g) ns s) \<and> set ns \<subseteq> vset (fst (fold (cc_step sch g) ns s)) \<and>
         vset (fst s) \<subseteq> vset (fst (fold (cc_step sch g) ns s))"
  using assms(2,3)
proof (induction ns arbitrary: s)
  case Nil
  then show ?case by simp
next
  case (Cons n ns)
  from cc_step_spec [OF assms(1) _ Cons.prems(2), of n sch] Cons.prems(1)
  have 1: "cc_inv g (cc_step sch g n s)" "n \<in> vset (fst (cc_step sch g n s))"
    "vset (fst s) \<subseteq> vset (fst (cc_step sch g n s))"
    by auto
  from Cons.IH [OF _ 1(1)] Cons.prems(1) 1(2,3) show ?case
    by auto
qed

section \<open>The priority queue keeps its content\<close>

lemma down_step:
  "2 * i + 1 < n \<Longrightarrow>
   down q i n = (if Less q (min_child q i n) i
                 then down (Swap q i (min_child q i n)) (min_child q i n) n else q)"
  by (simp add: down_inner min_child_def)

lemma down_induct2 [case_names step]:
  assumes "\<And>q i n. (2 * i + 1 < n \<Longrightarrow> Less q (min_child q i n) i
                       \<Longrightarrow> P (Swap q i (min_child q i n)) (min_child q i n) n) \<Longrightarrow> P q i n"
  shows "P q i n"
proof (induction q i n rule: down.induct)
  case (1 q i n)
  show ?case
  proof (rule assms)
    assume a: "2 * i + 1 < n" "Less q (min_child q i n) i"
    have "min_child q i n = (if 2 * i + 1 + 1 < n \<and> Less q (2 * i + 1 + 1) (2 * i + 1) then 2 * i + 1 + 1 else 2 * i + 1)"
      by (simp add: min_child_def)
    from 1 [OF refl _ this] a show "P (Swap q i (min_child q i n)) (min_child q i n) n"
      by simp
  qed
qed

lemma min_child_bounds: "2 * i + 1 < n \<Longrightarrow> min_child q i n < n \<and> i < min_child q i n"
  by (simp add: min_child_def)

lemma entries_Nil [simp]: "entries [] = {#}"
  by (simp add: entries_def)

lemma entries_Swap:
  assumes "i < length q" and "j < length q"
  shows "entries (Swap q i j) = entries q"
proof -
  let ?k = "\<lambda>it. (node it, priority it)"
  have "map ?k (Swap q i j) = (map ?k q)[i := map ?k q ! j, j := map ?k q ! i]"
    using assms by (simp add: Swap_def map_update)
  then show ?thesis
    using assms mset_swap [of j "map ?k q" i] by (simp add: entries_def)
qed

lemma entries_up: "j < length q \<Longrightarrow> entries (up q j) = entries q"
proof (induction q j rule: up.induct)
  case (1 q j)
  show ?case
  proof (cases "(j - 1) div 2 = j \<or> \<not> Less q j ((j - 1) div 2)")
    case True
    then show ?thesis by (subst up.simps) (simp add: Let_def)
  next
    case False
    have lt: "(j - 1) div 2 < length q" using 1(2) by simp
    have "up q j = up (Swap q ((j - 1) div 2) j) ((j - 1) div 2)"
      using False by (subst up.simps) (simp add: Let_def)
    also have "entries \<dots> = entries (Swap q ((j - 1) div 2) j)"
      using 1(1) [OF refl _] False lt by simp
    finally show ?thesis using lt 1(2) by (simp add: entries_Swap)
  qed
qed

lemma entries_down: "n \<le> length q \<Longrightarrow> entries (down q i n) = entries q"
proof (induction q i n rule: down_induct2)
  case (step q i n)
  show ?case
  proof (cases "2 * i + 1 < n \<and> Less q (min_child q i n) i")
    case False
    then have "down q i n = q"
      by (cases "2 * i + 1 < n") (simp_all add: down_step down_leaf)
    then show ?thesis by simp
  next
    case True
    then have j: "min_child q i n < n" "i < n"
      using min_child_bounds [of i n q] by auto
    have "down q i n = down (Swap q i (min_child q i n)) (min_child q i n) n"
      using True by (simp add: down_step)
    also have "entries \<dots> = entries (Swap q i (min_child q i n))"
      using step True by simp
    finally show ?thesis using j step.prems by (simp add: entries_Swap)
  qed
qed

lemma entries_heap_Push: "entries (heap_Push q x) = add_mset (node x, priority x) (entries q)"
proof -
  have "entries (heap_Push q x) = entries (Push q x)"
    by (simp add: heap_Push_def Let_def entries_up Push_def)
  then show ?thesis by (simp add: entries_def Push_def)
qed

lemma entries_heap_Pop:
  assumes "q \<noteq> []" and "heap_Pop q = (it, q')"
  shows "entries q = add_mset (node it, priority it) (entries q')"
proof -
  let ?n = "length q - 1"
  let ?q2 = "down (Swap q 0 ?n) 0 ?n"
  have len: "length ?q2 = length q" by simp
  then have ne: "?q2 \<noteq> []" using assms(1) by (metis length_0_conv)
  have "entries ?q2 = entries q"
    using assms(1) by (simp add: entries_down entries_Swap)
  moreover have "it = (last ?q2)\<lparr>index := - 1\<rparr>" and "q' = butlast ?q2"
    using assms(2) by (simp_all add: heap_Pop_def Pop_def Let_def)
  moreover have "entries ?q2 = add_mset (node (last ?q2), priority (last ?q2)) (entries (butlast ?q2))"
    using append_butlast_last_id [OF ne, symmetric]
    by (metis (no_types, lifting) entries_def list.simps(8,9) map_append mset.simps(2) mset_append union_mset_add_mset_right add.right_neutral mset.simps(1))
  ultimately show ?thesis by simp
qed

section \<open>Dijkstra: invariant of the main loop\<close>

lemma dijkstra_loop_rule [consumes 1, case_names turn]:
  assumes "I st"
    and "\<And>st b st'. I st \<Longrightarrow> pq st \<noteq> [] \<Longrightarrow> dijkstra_body sch g t st = (b, st') \<Longrightarrow> I st'"
  shows "I (dijkstra_loop sch g t st)"
proof -
  have "I st \<longrightarrow> I (dijkstra_loop sch' g' t' st)" if "sch' = sch" "g' = g" "t' = t" for sch' g' t'
    using that
  proof (induction sch' g' t' st rule: dijkstra_loop.induct)
    case (1 sch' g' t' st)
    show ?case
    proof (cases "pq st = []")
      case True
      then show ?thesis by (simp add: dijkstra_loop_done)
    next
      case False
      obtain b st' where body: "dijkstra_body sch' g' t' st = (b, st')"
        by (cases "dijkstra_body sch' g' t' st")
      show ?thesis
      proof
        assume "I st"
        then have I': "I st'" using assms(2) [OF _ False, of b st'] body 1(2-) by simp
        show "I (dijkstra_loop sch' g' t' st)"
        proof (cases b)
          case True
          with 1(1) [OF False body [symmetric]] 1(2-) I' body False show ?thesis
            by (simp add: dijkstra_loop_turn)
        next
          case b: False
          with I' body False show ?thesis by (simp add: dijkstra_loop_turn)
        qed
      qed
    qed
  qed
  then show ?thesis using assms(1) by simp
qed

lemma dijkstra_loop_exit_rule [consumes 1, case_names turn empty break]:
  assumes "I st"
    and "\<And>st st'. I st \<Longrightarrow> pq st \<noteq> [] \<Longrightarrow> dijkstra_body sch g t st = (True, st') \<Longrightarrow> I st'"
    and "\<And>st. I st \<Longrightarrow> pq st = [] \<Longrightarrow> Q st"
    and "\<And>st st'. I st \<Longrightarrow> pq st \<noteq> [] \<Longrightarrow> dijkstra_body sch g t st = (False, st') \<Longrightarrow> Q st'"
  shows "Q (dijkstra_loop sch g t st)"
proof -
  have "I st \<longrightarrow> Q (dijkstra_loop sch' g' t' st)" if "sch' = sch" "g' = g" "t' = t" for sch' g' t'
    using that
  proof (induction sch' g' t' st rule: dijkstra_loop.induct)
    case (1 sch' g' t' st)
    show ?case
    proof (cases "pq st = []")
      case True
      then show ?thesis using assms(3) by (simp add: dijkstra_loop_done)
    next
      case False
      obtain b st' where body: "dijkstra_body sch' g' t' st = (b, st')"
        by (cases "dijkstra_body sch' g' t' st")
      show ?thesis
      proof
        assume I: "I st"
        show "Q (dijkstra_loop sch' g' t' st)"
        proof (cases b)
          case True
          then have "I st'" using assms(2) [OF I False, of st'] body 1(2-) by simp
          with 1(1) [OF False body [symmetric]] 1(2-) True body False show ?thesis
            by (simp add: dijkstra_loop_turn)
        next
          case b: False
          then have "Q st'" using assms(4) [OF I False, of st'] body 1(2-) by simp
          with b body False show ?thesis by (simp add: dijkstra_loop_turn)
        qed
      qed
    qed
  qed
  then show ?thesis using assms(1) by simp
qed

lemma back_path_walk: "back_path prv s v p \<Longrightarrow> walk_back prv s v acc = Some (p @ acc)"
proof (induction arbitrary: acc rule: back_path.induct)
  case stop
  show ?case by (simp add: walk_back_done)
next
  case (hop v p)
  then show ?case by (simp add: walk_back_turn)
qed

lemma back_path_last: "back_path prv s v p \<Longrightarrow> last (s # p) = v"
  by (induction rule: back_path.induct) simp_all

lemma back_path_upd:
  "back_path prv s v p \<Longrightarrow> x \<notin> set p \<Longrightarrow> back_path (prv(x \<mapsto> y)) s v p"
proof (induction rule: back_path.induct)
  case stop
  show ?case by (rule back_path.stop)
next
  case (hop v p)
  have x: "x \<noteq> v" "x \<notin> set p" using hop.prems by auto
  have geq: "geti (prv(x \<mapsto> y)) v = geti prv v"
    using x(1) by (simp add: geti_def)
  have "back_path (prv(x \<mapsto> y)) s (geti (prv(x \<mapsto> y)) v) p"
    unfolding geq by (rule hop.IH [OF x(2)])
  then show ?case by (rule back_path.hop [OF hop.hyps(1)])
qed

lemma is_path_snoc_iff:
  "p \<noteq> [] \<Longrightarrow> is_path g (p @ [v]) \<longleftrightarrow> is_path g p \<and> (\<exists>w. edge g (last p) v w)"
  by (induction g p rule: is_path.induct) auto

lemma weight_edge: "edge g u v w \<Longrightarrow> weight g u v = w"
  by (simp add: edge_def weight_def)

lemma cost_from_snoc:
  "p \<noteq> [] \<Longrightarrow> cost_from g c (p @ [v]) = fadd (cost_from g c p) (weight g (last p) v)"
  by (induction g c p rule: cost_from.induct) auto

lemma path_cost_snoc:
  "p \<noteq> [] \<Longrightarrow> path_cost g (p @ [v]) = fadd (path_cost g p) (weight g (last p) v)"
  by (simp add: path_cost_def cost_from_snoc)

lemma path_cost_single [simp]: "path_cost g [v] = Fin 0"
  by (simp add: path_cost_def)

lemma is_path_reachable: "is_path g (s # p) \<Longrightarrow> reachable g s (last (s # p))"
proof (induction p rule: rev_induct)
  case Nil
  show ?case by (simp add: reachable.here)
next
  case (snoc v p)
  have "is_path g ((s # p) @ [v])" using snoc.prems by simp
  then have "is_path g (s # p)" and "\<exists>w. edge g (last (s # p)) v w"
    by (simp_all only: is_path_snoc_iff [of "s # p"] list.distinct(2) not_False_eq_True simp_thms)
  with snoc.IH show ?case by (auto intro: reachable.step)
qed

lemma inv_A_I:
  assumes "dist st s = Some (Fin 0)"
    and "\<And>v. registered g v \<Longrightarrow> dist st v \<noteq> None"
    and "\<And>v d. dist st v = Some d \<Longrightarrow> fless d PInf \<Longrightarrow> tree_path g s st v d"
    and "\<And>v p. (v, p) \<in># entries (pq st) \<Longrightarrow> \<exists>d. dist st v = Some d \<and> fless d PInf \<and> fle d p"
    and "\<And>v d. dist st v = Some d \<Longrightarrow> fless d PInf \<Longrightarrow> \<not> getb (visited st) v \<Longrightarrow> (v, d) \<in># entries (pq st)"
    and "\<And>v. getb (visited st) v \<Longrightarrow> \<exists>d. dist st v = Some d \<and> fless d PInf"
    and "\<And>v p. \<not> getb (visited st) s \<Longrightarrow> (v, p) \<in># entries (pq st) \<Longrightarrow> v = s"
    and "\<And>v. getb (visited st) v \<Longrightarrow> getb (visited st) s"
    and "\<And>v d. dist st v = Some d \<Longrightarrow> d \<noteq> NaN"
    and "\<And>v. prev st v \<noteq> None \<Longrightarrow> \<exists>d. dist st v = Some d \<and> fless d PInf"
  shows "inv_A g s st"
  unfolding inv_A_def using assms by blast

lemma inv_A_source: "inv_A g s st \<Longrightarrow> dist st s = Some (Fin 0)"
  and inv_A_dom: "inv_A g s st \<Longrightarrow> registered g v \<Longrightarrow> dist st v \<noteq> None"
  and inv_A_tree: "inv_A g s st \<Longrightarrow> dist st v = Some d \<Longrightarrow> fless d PInf \<Longrightarrow> tree_path g s st v d"
  and inv_A_queued: "inv_A g s st \<Longrightarrow> (v, p) \<in># entries (pq st) \<Longrightarrow> \<exists>d. dist st v = Some d \<and> fless d PInf \<and> fle d p"
  and inv_A_pending: "inv_A g s st \<Longrightarrow> dist st v = Some d \<Longrightarrow> fless d PInf \<Longrightarrow> \<not> getb (visited st) v \<Longrightarrow> (v, d) \<in># entries (pq st)"
  and inv_A_visited: "inv_A g s st \<Longrightarrow> getb (visited st) v \<Longrightarrow> \<exists>d. dist st v = Some d \<and> fless d PInf"
  and inv_A_first: "inv_A g s st \<Longrightarrow> \<not> getb (visited st) s \<Longrightarrow> (v, p) \<in># entries (pq st) \<Longrightarrow> v = s"
  and inv_A_source_visited: "inv_A g s st \<Longrightarrow> getb (visited st) v \<Longrightarrow> getb (visited st) s"
  and inv_A_no_nan: "inv_A g s st \<Longrightarrow> dist st v = Some d \<Longrightarrow> d \<noteq> NaN"
  and inv_A_prev: "inv_A g s st \<Longrightarrow> prev st v \<noteq> None \<Longrightarrow> \<exists>d. dist st v = Some d \<and> fless d PInf"
  unfolding inv_A_def by blast+

lemma tree_path_mono:
  assumes "tree_path g s st v x" and "prev st' = prev st"
    and "\<And>u. getb (visited st) u \<Longrightarrow> getb (visited st') u"
  shows "tree_path g s st' v x"
  using assms unfolding tree_path_def by metis

lemma tree_path_nodes_visited:
  assumes "tree_path g s st u y" and "getb (visited st) u"
  obtains p where "back_path (prev st) s u p" "is_path g (s # p)" "path_cost g (s # p) = y"
    "\<forall>n \<in> set (s # p). getb (visited st) n"
proof -
  from assms(1) obtain p where p: "back_path (prev st) s u p" "is_path g (s # p)"
    "path_cost g (s # p) = y" "\<forall>n \<in> set (butlast (s # p)). getb (visited st) n"
    unfolding tree_path_def by blast
  have "last (s # p) = u" by (rule back_path_last [OF p(1)])
  then have "set (s # p) = insert u (set (butlast (s # p)))"
    by (metis append_butlast_last_id list.distinct(1) list.simps(15) rotate1.simps(2) set_rotate1)
  with p(4) assms(2) have "\<forall>n \<in> set (s # p). getb (visited st) n" by auto
  with p(1-3) that show thesis by blast
qed

lemma getb_upd: "getb (m(u \<mapsto> True)) v \<longleftrightarrow> v = u \<or> getb m v"
  by (simp add: getb_def)

lemma inv_A_skip:
  assumes A: "inv_A g s st" and q: "entries (pq st) = add_mset (u, p) (entries q)"
    and u: "getb (visited st) u"
  shows "inv_A g s (st\<lparr>pq := q\<rparr>)"
proof (rule inv_A_I)
  let ?st = "st\<lparr>pq := q\<rparr>"
  have sub: "e \<in># entries (pq st)" if "e \<in># entries (pq ?st)" for e
    using that q by simp
  show "dist ?st s = Some (Fin 0)" using inv_A_source [OF A] by simp
  show "dist ?st v \<noteq> None" if "registered g v" for v
    using inv_A_dom [OF A that] by simp
  show "tree_path g s ?st v d" if "dist ?st v = Some d" "fless d PInf" for v d
    using inv_A_tree [OF A, of v d] that by (auto intro: tree_path_mono)
  show "\<exists>d. dist ?st v = Some d \<and> fless d PInf \<and> fle d p'" if "(v, p') \<in># entries (pq ?st)" for v p'
    using inv_A_queued [OF A sub [OF that]] by simp
  show "(v, d) \<in># entries (pq ?st)" if "dist ?st v = Some d" "fless d PInf" "\<not> getb (visited ?st) v" for v d
  proof -
    have "(v, d) \<in># entries (pq st)" using inv_A_pending [OF A, of v d] that by simp
    moreover have "v \<noteq> u" using that(3) u by auto
    ultimately show ?thesis using q by simp
  qed
  show "\<exists>d. dist ?st v = Some d \<and> fless d PInf" if "getb (visited ?st) v" for v
    using inv_A_visited [OF A, of v] that by simp
  show "v = s" if "\<not> getb (visited ?st) s" "(v, p') \<in># entries (pq ?st)" for v p'
    using inv_A_first [OF A _ sub [OF that(2)]] that(1) by simp
  show "getb (visited ?st) s" if "getb (visited ?st) v" for v
    using inv_A_source_visited [OF A, of v] that by simp
  show "d \<noteq> NaN" if "dist ?st v = Some d" for v d
    using inv_A_no_nan [OF A, of v d] that by simp
  show "\<exists>d. dist ?st v = Some d \<and> fless d PInf" if "prev ?st v \<noteq> None" for v
    using inv_A_prev [OF A, of v] that by simp
qed

lemma inv_A_visit:
  assumes A: "inv_A g s st" and q: "entries (pq st) = add_mset (u, p) (entries q)"
    and u: "\<not> getb (visited st) u"
  shows "inv_A g s (st\<lparr>visited := (visited st)(u \<mapsto> True), pq := q\<rparr>)"
proof (rule inv_A_I)
  let ?st = "st\<lparr>visited := (visited st)(u \<mapsto> True), pq := q\<rparr>"
  have sub: "e \<in># entries (pq st)" if "e \<in># entries (pq ?st)" for e
    using that q by simp
  have up: "(u, p) \<in># entries (pq st)" using q by simp
  have vis: "getb (visited ?st) v \<longleftrightarrow> v = u \<or> getb (visited st) v" for v
    by (simp add: getb_upd)
  show "dist ?st s = Some (Fin 0)" using inv_A_source [OF A] by simp
  show "dist ?st v \<noteq> None" if "registered g v" for v
    using inv_A_dom [OF A that] by simp
  show "tree_path g s ?st v d" if "dist ?st v = Some d" "fless d PInf" for v d
    using inv_A_tree [OF A, of v d] that by (auto intro: tree_path_mono simp: getb_upd)
  show "\<exists>d. dist ?st v = Some d \<and> fless d PInf \<and> fle d p'" if "(v, p') \<in># entries (pq ?st)" for v p'
    using inv_A_queued [OF A sub [OF that]] by simp
  show "(v, d) \<in># entries (pq ?st)" if "dist ?st v = Some d" "fless d PInf" "\<not> getb (visited ?st) v" for v d
  proof -
    have "v \<noteq> u" and "\<not> getb (visited st) v" using that(3) by (auto simp: getb_upd)
    moreover have "(v, d) \<in># entries (pq st)"
      using inv_A_pending [OF A, of v d] that(1,2) \<open>\<not> getb (visited st) v\<close> by simp
    ultimately show ?thesis using q by simp
  qed
  show "\<exists>d. dist ?st v = Some d \<and> fless d PInf" if "getb (visited ?st) v" for v
    using inv_A_visited [OF A, of v] inv_A_queued [OF A up] that by (auto simp: getb_upd)
  show "v = s" if "\<not> getb (visited ?st) s" "(v, p') \<in># entries (pq ?st)" for v p'
    using inv_A_first [OF A _ up] that(1) by (auto simp: getb_upd)
  show "getb (visited ?st) s" if "getb (visited ?st) v" for v
    using inv_A_source_visited [OF A, of v] inv_A_first [OF A _ up] that by (auto simp: getb_upd)
  show "d \<noteq> NaN" if "dist ?st v = Some d" for v d
    using inv_A_no_nan [OF A, of v d] that by simp
  show "\<exists>d. dist ?st v = Some d \<and> fless d PInf" if "prev ?st v \<noteq> None" for v
    using inv_A_prev [OF A, of v] that by simp
qed

lemma relax_dijkstra_skip:
  "getb (visited st) v \<or> \<not> fless (fadd (getf (dist st) u) w) (getf (dist st) v)
   \<Longrightarrow> relax_dijkstra u (v, w) st = st"
  by (auto simp: relax_dijkstra_def Let_def)

lemma relax_dijkstra_update:
  "\<not> getb (visited st) v \<Longrightarrow> fless (fadd (getf (dist st) u) w) (getf (dist st) v)
   \<Longrightarrow> relax_dijkstra u (v, w) st =
         st\<lparr>dist := (dist st)(v \<mapsto> fadd (getf (dist st) u) w), prev := (prev st)(v \<mapsto> u),
            pq := heap_Push (pq st) \<lparr>node = v, priority = fadd (getf (dist st) u) w, index = 0\<rparr>\<rparr>"
  by (simp add: relax_dijkstra_def Let_def)

lemma inv_A_relax:
  assumes A: "inv_A g s st" and u: "getb (visited st) u" and e: "edge g u v w"
  shows "inv_A g s (relax_dijkstra u (v, w) st)"
proof (cases "getb (visited st) v \<or> \<not> fless (fadd (getf (dist st) u) w) (getf (dist st) v)")
  case True
  then show ?thesis using A by (simp add: relax_dijkstra_skip)
next
  case False
  then have v: "\<not> getb (visited st) v"
    and less: "fless (fadd (getf (dist st) u) w) (getf (dist st) v)" by auto
  obtain y where y: "dist st u = Some y" "fless y PInf" using inv_A_visited [OF A u] by blast
  define nd where "nd = fadd y w"
  have nd: "fadd (getf (dist st) u) w = nd" by (simp add: getf_def y nd_def)
  have nd_less: "fless nd (getf (dist st) v)" using less by (simp add: nd)
  have nd_fin: "fless nd PInf" and nd_nan: "nd \<noteq> NaN"
    using nd_less by (cases nd; cases "getf (dist st) v"; simp)+
  let ?st = "st\<lparr>dist := (dist st)(v \<mapsto> nd), prev := (prev st)(v \<mapsto> u),
                 pq := heap_Push (pq st) \<lparr>node = v, priority = nd, index = 0\<rparr>\<rparr>"
  have st': "relax_dijkstra u (v, w) st = ?st"
    using relax_dijkstra_update [OF v less] by (simp add: nd)
  have s_vis: "getb (visited st) s" by (rule inv_A_source_visited [OF A u])
  have vs: "v \<noteq> s" using v s_vis by auto
  have ent: "entries (pq ?st) = add_mset (v, nd) (entries (pq st))"
    by (simp add: entries_heap_Push)
  have "inv_A g s ?st"
  proof (rule inv_A_I)
    show "dist ?st s = Some (Fin 0)" using inv_A_source [OF A] vs by simp
    show "dist ?st n \<noteq> None" if "registered g n" for n
      using inv_A_dom [OF A that] by simp
    show "tree_path g s ?st n x" if n: "dist ?st n = Some x" "fless x PInf" for n x
    proof (cases "n = v")
      case True
      then have x: "x = nd" using n by simp
      from inv_A_tree [OF A y] u obtain p where p: "back_path (prev st) s u p" "is_path g (s # p)"
        "path_cost g (s # p) = y" "\<forall>n \<in> set (s # p). getb (visited st) n"
        by (rule tree_path_nodes_visited)
      have last: "last (s # p) = u" by (rule back_path_last [OF p(1)])
      have "v \<notin> set p" using p(4) v by auto
      then have "back_path (prev ?st) s u p"
        using back_path_upd [OF p(1), of v u] by simp
      then have "back_path (prev ?st) s (geti (prev ?st) v) p" by (simp add: geti_def)
      then have 1: "back_path (prev ?st) s v (p @ [v])" by (rule back_path.hop [OF vs])
      have 2: "is_path g (s # p @ [v])"
        using is_path_snoc_iff [of "s # p" g v] p(2) e last by auto
      have 3: "path_cost g (s # p @ [v]) = x"
        using path_cost_snoc [of "s # p" g v] p(3) last weight_edge [OF e] x by (simp add: nd_def)
      have 4: "\<forall>n \<in> set (butlast (s # p @ [v])). getb (visited ?st) n"
        using p(4) by (simp add: butlast_append)
      show ?thesis unfolding tree_path_def True using 1 2 3 4 by blast
    next
      case False
      then have "dist st n = Some x" using n by simp
      from inv_A_tree [OF A this n(2)] obtain p where p: "back_path (prev st) s n p" "is_path g (s # p)"
        "path_cost g (s # p) = x" "\<forall>m \<in> set (butlast (s # p)). getb (visited st) m"
        unfolding tree_path_def by blast
      have last: "last (s # p) = n" by (rule back_path_last [OF p(1)])
      have "set (s # p) = insert n (set (butlast (s # p)))"
        using last by (metis append_butlast_last_id list.distinct(1) list.simps(15) rotate1.simps(2) set_rotate1)
      then have "v \<notin> set p" using p(4) v False by auto
      then have bp: "back_path (prev ?st) s n p"
        using back_path_upd [OF p(1), of v u] by simp
      have "\<forall>m \<in> set (butlast (s # p)). getb (visited ?st) m"
        using p(4) by simp
      with bp p(2,3) show ?thesis unfolding tree_path_def by blast
    qed
    show "\<exists>x. dist ?st n = Some x \<and> fless x PInf \<and> fle x p" if "(n, p) \<in># entries (pq ?st)" for n p
    proof (cases "n = v")
      case True
      show ?thesis
      proof (cases "(n, p) \<in># entries (pq st)")
        case old: True
        from inv_A_queued [OF A old] obtain x where x: "dist st n = Some x" "fless x PInf" "fle x p"
          by blast
        have "getf (dist st) v = x" using x(1) True by (simp add: getf_def)
        then have "fless nd x" using nd_less by simp
        then have "fless nd p" using x(3) by (rule fless_fle_trans)
        then have "fle nd p" by (rule fless_fle)
        then show ?thesis using True nd_fin by simp
      next
        case False
        then have "p = nd" using that ent by auto
        then show ?thesis using True nd_fin nd_nan by (simp add: fle_refl)
      qed
    next
      case False
      then have "(n, p) \<in># entries (pq st)" using that ent by auto
      from inv_A_queued [OF A this] False show ?thesis by simp
    qed
    show "(n, x) \<in># entries (pq ?st)" if "dist ?st n = Some x" "fless x PInf" "\<not> getb (visited ?st) n" for n x
    proof (cases "n = v")
      case True
      then show ?thesis using that(1) ent by simp
    next
      case False
      then show ?thesis using inv_A_pending [OF A, of n x] that ent by simp
    qed
    show "\<exists>x. dist ?st n = Some x \<and> fless x PInf" if "getb (visited ?st) n" for n
      using inv_A_visited [OF A, of n] that nd_fin by auto
    show "n = s" if "\<not> getb (visited ?st) s" "(n, p) \<in># entries (pq ?st)" for n p
      using that(1) s_vis by simp
    show "getb (visited ?st) s" if "getb (visited ?st) n" for n
      using s_vis by simp
    show "x \<noteq> NaN" if "dist ?st n = Some x" for n x
      using inv_A_no_nan [OF A, of n x] that nd_nan by (cases "n = v") simp_all
    show "\<exists>x. dist ?st n = Some x \<and> fless x PInf" if "prev ?st n \<noteq> None" for n
      using inv_A_prev [OF A, of n] that nd_fin by (cases "n = v") simp_all
  qed
  then show ?thesis by (simp add: st')
qed

lemma inv_A_fold:
  assumes "inv_A g s st" and "getb (visited st) u" and "\<forall>(v, w) \<in> set es. edge g u v w"
  shows "inv_A g s (fold (relax_dijkstra u) es st)"
  using assms
proof (induction es arbitrary: st)
  case Nil
  then show ?case by simp
next
  case (Cons e es)
  obtain v w where e: "e = (v, w)" by (cases e)
  have "inv_A g s (relax_dijkstra u (v, w) st)"
    using Cons.prems by (intro inv_A_relax) (auto simp: e)
  moreover have "getb (visited (relax_dijkstra u (v, w) st)) u"
    using Cons.prems(2) by simp
  ultimately show ?case
    using Cons.IH [of "relax_dijkstra u (v, w) st"] Cons.prems(3) by (simp add: e)
qed

lemma row_edges: "\<forall>(v, w) \<in> set (go_range ord (row g u)). edge g u v w"
  using go_range_iff [of _ _ ord "row g u"] by (auto simp: edge_def simp del: set_go_range)

lemma dijkstra_body_cases [consumes 1, case_names skip break expand]:
  assumes "pq st \<noteq> []"
  obtains it q where "heap_Pop (pq st) = (it, q)" "getb (visited st) (node it)"
      "dijkstra_body sch g t st = (True, st\<lparr>pq := q\<rparr>)"
  | it q where "heap_Pop (pq st) = (it, q)" "\<not> getb (visited st) (node it)" "node it = t"
      "dijkstra_body sch g t st = (False, st\<lparr>visited := (visited st)(node it \<mapsto> True), pq := q\<rparr>)"
  | it q where "heap_Pop (pq st) = (it, q)" "\<not> getb (visited st) (node it)" "node it \<noteq> t"
      "dijkstra_body sch g t st =
         (True, fold (relax_dijkstra (node it)) (go_range (nbr_ord sch (node it)) (row g (node it)))
                     (st\<lparr>visited := (visited st)(node it \<mapsto> True), pq := q\<rparr>))"
proof -
  obtain it q where pop: "heap_Pop (pq st) = (it, q)" by (cases "heap_Pop (pq st)")
  show thesis
  proof (cases "getb (visited st) (node it)")
    case True
    then show ?thesis using that(1) [OF pop] by (simp add: dijkstra_body_def pop)
  next
    case False
    show ?thesis
    proof (cases "node it = t")
      case True
      then show ?thesis using that(2) [OF pop False] False by (simp add: dijkstra_body_def pop Let_def)
    next
      case nt: False
      then show ?thesis using that(3) [OF pop False] False by (simp add: dijkstra_body_def pop Let_def)
    qed
  qed
qed

lemma inv_A_body:
  assumes A: "inv_A g s st" and ne: "pq st \<noteq> []" and body: "dijkstra_body sch g t st = (b, st')"
  shows "inv_A g s st'"
  using ne
proof (cases rule: dijkstra_body_cases [where sch = sch and g = g and t = t])
  case (skip it q)
  have "entries (pq st) = add_mset (node it, priority it) (entries q)"
    by (rule entries_heap_Pop [OF ne skip(1)])
  from inv_A_skip [OF A this skip(2)] skip(3) body show ?thesis by simp
next
  case (break it q)
  have "entries (pq st) = add_mset (node it, priority it) (entries q)"
    by (rule entries_heap_Pop [OF ne break(1)])
  from inv_A_visit [OF A this break(2)] break(4) body show ?thesis by simp
next
  case (expand it q)
  have "entries (pq st) = add_mset (node it, priority it) (entries q)"
    by (rule entries_heap_Pop [OF ne expand(1)])
  from inv_A_visit [OF A this expand(2)]
  have "inv_A g s (st\<lparr>visited := (visited st)(node it \<mapsto> True), pq := q\<rparr>)" .
  then have "inv_A g s (fold (relax_dijkstra (node it)) (go_range (nbr_ord sch (node it)) (row g (node it)))
                     (st\<lparr>visited := (visited st)(node it \<mapsto> True), pq := q\<rparr>))"
    by (rule inv_A_fold) (simp_all add: getb_upd row_edges del: set_go_range)
  with expand(4) body show ?thesis by simp
qed

lemma heap_Init_Nil [simp]: "heap_Init [] = []"
  by (simp add: heap_Init_def)

lemma entries_init [simp]:
  "entries (pq (init_state ord g s p)) = {#(s, p)#}"
  by (simp add: init_state_def entries_heap_Push)

lemma inv_A_init: "inv_A g s (init_state ord g s (Fin 0))"
proof (rule inv_A_I)
  let ?st = "init_state ord g s (Fin 0)"
  have d: "dist ?st = (\<lambda>n. if n = s then Some (Fin 0) else if n \<in> fst ` set (nodes g) then Some PInf else None)"
    by (simp add: init_state_def init_dist_eq)
  have v: "visited ?st = Map.empty" and p: "prev ?st = Map.empty"
    by (simp_all add: init_state_def)
  show "dist ?st s = Some (Fin 0)" by (simp add: d)
  show "dist ?st v \<noteq> None" if "registered g v" for v
    using that by (simp add: d registered_iff)
  show "tree_path g s ?st v x" if "dist ?st v = Some x" "fless x PInf" for v x
  proof -
    have "v = s" and "x = Fin 0" using that by (auto simp: d split: if_splits)
    moreover have "back_path (prev ?st) s s []" by (rule back_path.stop)
    ultimately show ?thesis unfolding tree_path_def by (intro exI [of _ "[]"]) simp
  qed
  show "\<exists>x. dist ?st v = Some x \<and> fless x PInf \<and> fle x p'" if "(v, p') \<in># entries (pq ?st)" for v p'
    using that by (simp add: d)
  show "(v, x) \<in># entries (pq ?st)" if "dist ?st v = Some x" "fless x PInf" "\<not> getb (visited ?st) v" for v x
    using that by (auto simp: d split: if_splits)
  show "\<exists>x. dist ?st v = Some x \<and> fless x PInf" if "getb (visited ?st) v" for v
    using that by (simp add: v getb_def)
  show "v = s" if "(v, p') \<in># entries (pq ?st)" for v p'
    using that by simp
  show "getb (visited ?st) s" if "getb (visited ?st) v" for v
    using that by (simp add: v getb_def)
  show "x \<noteq> NaN" if "dist ?st v = Some x" for v x
    using that by (auto simp: d split: if_splits)
  show "\<exists>x. dist ?st v = Some x \<and> fless x PInf" if "prev ?st v \<noteq> None" for v
    using that by (simp add: p)
qed

lemma inv_A_final: "inv_A g s (dijkstra_loop sch g t (init_state ord g s (Fin 0)))"
  using inv_A_init
proof (induction rule: dijkstra_loop_rule)
  case (turn st b st')
  then show ?case by (rule inv_A_body)
qed

lemma tree_path_reachable: "tree_path g s st v x \<Longrightarrow> reachable g s v"
  unfolding tree_path_def using is_path_reachable back_path_last by metis

lemma dijkstra_self: "Dijkstra sch g s s = Some (Fin 0, [s])"
  by (simp add: heap_eval get_eval Dijkstra_def init_state_def init_dist_eq
      dijkstra_body_def reconstruct_def dijkstra_loop_done dijkstra_loop_turn walk_back_done Let_def)

lemma dijkstra_unreachable:
  assumes "registered g t" and "\<not> reachable g s t"
  shows "Dijkstra sch g s t = Some (PInf, [])"
proof -
  let ?st = "dijkstra_loop sch g t (init_state (nodes_ord sch) g s (Fin 0))"
  have A: "inv_A g s ?st" by (rule inv_A_final)
  obtain d where d: "dist ?st t = Some d"
    using inv_A_dom [OF A assms(1)] by blast
  have "\<not> fless d PInf"
  proof
    assume "fless d PInf"
    then have "reachable g s t"
      using inv_A_tree [OF A d] tree_path_reachable by blast
    with assms(2) show False by simp
  qed
  moreover have "d \<noteq> NaN" by (rule inv_A_no_nan [OF A d])
  ultimately have "d = PInf" by (cases d) simp_all
  then have "getf (dist ?st) t = PInf" using d by (simp add: getf_def)
  then show ?thesis by (simp add: Dijkstra_def reconstruct_def)
qed

lemma edge_NewGraph [simp]: "\<not> edge NewGraph u v w"
  by (simp add: edge_def row_def NewGraph_def)

section \<open>Priority queue: the heap order and the least priority\<close>

lemma hle_refl [simp]: "hle a a"
  by (cases a) (simp_all add: hle_def)

lemma hle_trans: "hle a b \<Longrightarrow> hle b c \<Longrightarrow> b \<noteq> NaN \<Longrightarrow> hle a c"
  by (cases a; cases b; cases c) (simp_all add: hle_def)

lemma fless_hle: "fless a b \<Longrightarrow> hle a b"
  by (cases a; cases b) (simp_all add: hle_def)

lemma not_fless_hle: "\<not> fless a b \<longleftrightarrow> hle b a"
  by (simp add: hle_def)

lemma hle_fle: "hle a b \<Longrightarrow> a \<noteq> NaN \<Longrightarrow> b \<noteq> NaN \<Longrightarrow> fle a b"
  by (cases a; cases b) (simp_all add: hle_def)

lemma Less_prio: "Less q i j \<longleftrightarrow> fless (prio q i) (prio q j)"
  by (simp add: Less_def prio_def)

lemma prio_Swap:
  "i < length q \<Longrightarrow> j < length q \<Longrightarrow>
   prio (Swap q i j) k = (if k = i then prio q j else if k = j then prio q i else prio q k)"
  by (auto simp: prio_def Swap_def nth_list_update)

lemma parent_less: "0 < c \<Longrightarrow> (c - 1) div 2 < (c::nat)"
  by simp

lemma parent_eq_iff: "0 < c \<Longrightarrow> (c - 1) div 2 = i \<longleftrightarrow> c = 2 * i + 1 \<or> c = 2 * i + (2::nat)"
  by (cases c) auto

lemma no_nan_Swap: "i < length q \<Longrightarrow> j < length q \<Longrightarrow> no_nan q \<Longrightarrow> no_nan (Swap q i j)"
  by (simp add: no_nan_def prio_Swap)

lemma up_heap_ok: "j < length q \<Longrightarrow> up_inv q j \<Longrightarrow> no_nan q \<Longrightarrow> heap_ok (up q j)"
proof (induction q j rule: up.induct)
  case (1 q j)
  define i where "i = (j - 1) div 2"
  show ?case
  proof (cases "j = 0")
    case True
    then have "heap_ok q" using 1(3) by (auto simp: up_inv_def heap_ok_def heap_upto_def)
    then show ?thesis using True by (simp add: up_root)
  next
    case False
    then have j: "0 < j" by simp
    have i: "i < j" using j by (simp add: i_def)
    have nn: "prio q k \<noteq> NaN" if "k < length q" for k
      using 1(4) that by (simp add: no_nan_def)
    have up: "up q j = (if Less q j i then up (Swap q i j) i else q)"
      unfolding i_def by (rule up_pos [OF j])
    show ?thesis
    proof (cases "Less q j i")
      case nl: False
      then have "hle (prio q i) (prio q j)" by (simp add: Less_prio not_fless_hle)
      then have "heap_ok q" using 1(3) unfolding up_inv_def heap_ok_def heap_upto_def i_def by metis
      then show ?thesis using nl by (simp add: up)
    next
      case True
      let ?q = "Swap q i j"
      have lt: "fless (prio q j) (prio q i)" using True by (simp add: Less_prio)
      have il: "i < length q" using i 1(2) by simp
      have P: "prio ?q k = (if k = i then prio q j else if k = j then prio q i else prio q k)" for k
        by (rule prio_Swap [OF il 1(2)])
      have a: "hle (prio q ((c - 1) div 2)) (prio q c)" if "0 < c" "c < length q" "c \<noteq> j" for c
        using 1(3) that unfolding up_inv_def by blast
      have b: "hle (prio q i) (prio q c)" if "0 < c" "c < length q" "(c - 1) div 2 = j" for c
        using 1(3) that j unfolding up_inv_def i_def by blast
      have "up_inv ?q i"
        unfolding up_inv_def
      proof (intro conjI allI impI)
        fix c assume c: "0 < c \<and> c < length ?q \<and> c \<noteq> i"
        then have c': "0 < c" "c < length q" "c \<noteq> i" by auto
        define pc where "pc = (c - 1) div 2"
        have pc: "pc < c" using c' by (simp add: pc_def)
        show "hle (prio ?q ((c - 1) div 2)) (prio ?q c)"
          unfolding pc_def [symmetric]
        proof (cases "c = j")
          case True
          then have "pc = i" by (simp add: pc_def i_def)
          then show "hle (prio ?q pc) (prio ?q c)" using True lt i by (simp add: P fless_hle)
        next
          case cj: False
          show "hle (prio ?q pc) (prio ?q c)"
          proof (cases "pc = j")
            case True
            then show ?thesis using b [OF c'(1,2)] c' cj i by (simp add: P pc_def)
          next
            case pj: False
            show ?thesis
            proof (cases "pc = i")
              case True
              have "hle (prio q j) (prio q i)" using lt by (rule fless_hle)
              moreover have "hle (prio q i) (prio q c)" using a [OF c'(1,2) cj] True by (simp add: pc_def)
              ultimately have "hle (prio q j) (prio q c)" by (rule hle_trans) (rule nn [OF il])
              then show ?thesis using True c' cj by (simp add: P)
            next
              case False
              then show ?thesis using a [OF c'(1,2) cj] c' cj pj by (simp add: P pc_def)
            qed
          qed
        qed
      next
        fix c assume c: "0 < c \<and> c < length ?q \<and> (c - 1) div 2 = i \<and> 0 < i"
        then have c': "0 < c" "c < length q" "(c - 1) div 2 = i" "0 < i" by auto
        define pi where "pi = (i - 1) div 2"
        have ii: "pi < i" using c'(4) by (simp add: pi_def)
        have pi: "hle (prio q pi) (prio q i)"
          using a [of i] c'(4) il i by (simp add: pi_def)
        have top: "prio ?q pi = prio q pi"
          using ii i by (simp add: P)
        show "hle (prio ?q ((i - 1) div 2)) (prio ?q c)"
          unfolding pi_def [symmetric]
        proof (cases "c = j")
          case True
          then show "hle (prio ?q pi) (prio ?q c)" using pi i top by (simp add: P)
        next
          case False
          have ci: "c \<noteq> i" using c'(1,3) parent_less [of c] by auto
          have "hle (prio q i) (prio q c)" using a [OF c'(1,2) False] c'(3) by simp
          with pi have "hle (prio q pi) (prio q c)" by (rule hle_trans) (rule nn [OF il])
          then show "hle (prio ?q pi) (prio ?q c)" using False ci top by (simp add: P)
        qed
      qed
      moreover have "no_nan ?q" by (rule no_nan_Swap [OF il 1(2) 1(4)])
      ultimately have "heap_ok (up ?q i)"
        using 1(1) [OF i_def] True i il by simp
      then show ?thesis using True by (simp add: up)
    qed
  qed
qed

lemma heap_Push_ok: "heap_ok q \<Longrightarrow> no_nan q \<Longrightarrow> priority x \<noteq> NaN \<Longrightarrow> heap_ok (heap_Push q x)"
proof -
  assume ok: "heap_ok q" and nn: "no_nan q" and x: "priority x \<noteq> NaN"
  let ?q = "Push q x"
  have len: "length ?q = Suc (length q)" by (simp add: Push_def)
  have pr: "prio ?q c = prio q c" if "c < length q" for c
    using that by (simp add: prio_def Push_def nth_append)
  have "up_inv ?q (length q)"
    unfolding up_inv_def
  proof (intro conjI allI impI)
    fix c assume "0 < c \<and> c < length ?q \<and> c \<noteq> length q"
    then have c: "0 < c" "c < length q" by (auto simp: len)
    then have "(c - 1) div 2 < length q" by simp
    then show "hle (prio ?q ((c - 1) div 2)) (prio ?q c)"
      using ok c by (simp add: pr heap_ok_def heap_upto_def)
  next
    fix c assume "0 < c \<and> c < length ?q \<and> (c - 1) div 2 = length q \<and> 0 < length q"
    then have "0 < c" "c \<le> length q" "(c - 1) div 2 = length q" by (auto simp: len)
    then have False using parent_less [of c] by simp
    then show "hle (prio ?q ((length q - 1) div 2)) (prio ?q c)" ..
  qed
  moreover have "no_nan ?q"
    using nn x unfolding no_nan_def by (auto simp: prio_def Push_def nth_append)
  ultimately have "heap_ok (up ?q (length q))" by (intro up_heap_ok) (simp_all add: len)
  then show ?thesis by (simp add: heap_Push_def Let_def len)
qed

lemma min_child_props:
  assumes "2 * i + 1 < n"
  shows "(min_child q i n = 2 * i + 1 \<or> min_child q i n = 2 * i + 2) \<and> min_child q i n < n \<and>
         (\<forall>c. (c = 2 * i + 1 \<or> c = 2 * i + 2) \<and> c < n \<longrightarrow> hle (prio q (min_child q i n)) (prio q c))"
proof (cases "2 * i + 2 < n \<and> Less q (2 * i + 2) (2 * i + 1)")
  case True
  then have "min_child q i n = 2 * i + 2" by (simp add: min_child_def)
  moreover have "hle (prio q (2 * i + 2)) (prio q (2 * i + 1))"
    using True by (simp add: Less_prio fless_hle)
  ultimately show ?thesis using True by auto
next
  case False
  then have m: "min_child q i n = 2 * i + 1" by (simp add: min_child_def)
  have "hle (prio q (2 * i + 1)) (prio q (2 * i + 2))" if "2 * i + 2 < n"
    using False that by (simp add: Less_prio not_fless_hle)
  then show ?thesis using assms m by auto
qed

lemma down_heap_upto:
  "n \<le> length q \<Longrightarrow> down_inv q i n \<Longrightarrow> no_nan q \<Longrightarrow> heap_upto (down q i n) n"
proof (induction q i n rule: down_induct2)
  case (step q i n)
  have a: "hle (prio q ((c - 1) div 2)) (prio q c)" if "0 < c" "c < n" "(c - 1) div 2 \<noteq> i" for c
    using step.prems(2) that unfolding down_inv_def by blast
  have b: "hle (prio q ((i - 1) div 2)) (prio q c)" if "0 < c" "c < n" "(c - 1) div 2 = i" "0 < i" for c
    using step.prems(2) that unfolding down_inv_def by blast
  show ?case
  proof (cases "2 * i + 1 < n")
    case False
    have "heap_upto q n"
      unfolding heap_upto_def
    proof (intro allI impI)
      fix c assume c: "0 < c \<and> c < n"
      then have "(c - 1) div 2 \<noteq> i" using False parent_eq_iff [of c i] by auto
      then show "hle (prio q ((c - 1) div 2)) (prio q c)" using a c by blast
    qed
    then show ?thesis using False by (simp add: down_leaf)
  next
    case True
    define j where "j = min_child q i n"
    from min_child_props [OF True, of q]
    have j: "j = 2 * i + 1 \<or> j = 2 * i + 2" "j < n"
      and jmin: "\<And>c. c = 2 * i + 1 \<or> c = 2 * i + 2 \<Longrightarrow> c < n \<Longrightarrow> hle (prio q j) (prio q c)"
      unfolding j_def by blast+
    have ij: "i < j" and pj: "(j - 1) div 2 = i" using j(1) by auto
    have down: "down q i n = (if Less q j i then down (Swap q i j) j n else q)"
      unfolding j_def by (rule down_step [OF True])
    show ?thesis
    proof (cases "Less q j i")
      case nl: False
      then have ij_le: "hle (prio q i) (prio q j)" by (simp add: Less_prio not_fless_hle)
      have "heap_upto q n"
        unfolding heap_upto_def
      proof (intro allI impI)
        fix c assume c: "0 < c \<and> c < n"
        show "hle (prio q ((c - 1) div 2)) (prio q c)"
        proof (cases "(c - 1) div 2 = i")
          case True
          then have "c = 2 * i + 1 \<or> c = 2 * i + 2" using c parent_eq_iff [of c i] by simp
          then have "hle (prio q j) (prio q c)" using jmin c by blast
          with ij_le show ?thesis unfolding True
            by (rule hle_trans) (use step.prems(1,3) j(2) in \<open>simp add: no_nan_def\<close>)
        next
          case False
          then show ?thesis using a c by blast
        qed
      qed
      then show ?thesis using nl by (simp add: down)
    next
      case True
      let ?q = "Swap q i j"
      have lt: "fless (prio q j) (prio q i)" using True by (simp add: Less_prio)
      have il: "i < length q" and jl: "j < length q" using ij j(2) step.prems(1) by auto
      have P: "prio ?q k = (if k = i then prio q j else if k = j then prio q i else prio q k)" for k
        by (rule prio_Swap [OF il jl])
      have "down_inv ?q j n"
        unfolding down_inv_def
      proof (intro conjI allI impI)
        fix c assume c: "0 < c \<and> c < n \<and> (c - 1) div 2 \<noteq> j"
        define pc where "pc = (c - 1) div 2"
        have pc: "pc < c" "pc \<noteq> j" using c parent_less [of c] by (auto simp: pc_def)
        show "hle (prio ?q ((c - 1) div 2)) (prio ?q c)"
          unfolding pc_def [symmetric]
        proof (cases "pc = i")
          case True
          then have ch: "c = 2 * i + 1 \<or> c = 2 * i + 2" using c parent_eq_iff [of c i] by (simp add: pc_def)
          show "hle (prio ?q pc) (prio ?q c)"
          proof (cases "c = j")
            case True
            then show ?thesis using \<open>pc = i\<close> lt ij by (simp add: P fless_hle)
          next
            case False
            have "c \<noteq> i" using pc(1) \<open>pc = i\<close> by simp
            moreover have "hle (prio q j) (prio q c)" using jmin ch c by blast
            ultimately show ?thesis using \<open>pc = i\<close> False by (simp add: P)
          qed
        next
          case False
          have cj: "c \<noteq> j" using False pj by (auto simp: pc_def)
          show "hle (prio ?q pc) (prio ?q c)"
          proof (cases "c = i")
            case True
            then have "0 < i" using c by simp
            have "hle (prio q ((i - 1) div 2)) (prio q j)"
              using b [of j] j(2) ij pj \<open>0 < i\<close> by simp
            then show ?thesis using True False pc ij by (simp add: P pc_def)
          next
            case ci: False
            have "hle (prio q pc) (prio q c)" using a [of c] c False by (simp add: pc_def)
            then show ?thesis using False pc cj ci by (simp add: P)
          qed
        qed
      next
        fix c assume c: "0 < c \<and> c < n \<and> (c - 1) div 2 = j \<and> 0 < j"
        then have cj: "j < c" using parent_less [of c] by auto
        have "hle (prio q j) (prio q c)" using a [of c] c ij by auto
        then show "hle (prio ?q ((j - 1) div 2)) (prio ?q c)"
          unfolding pj using cj ij by (simp add: P)
      qed
      moreover have "no_nan ?q" by (rule no_nan_Swap [OF il jl step.prems(3)])
      ultimately have "heap_upto (down ?q j n) n"
        using step.IH [OF \<open>2 * i + 1 < n\<close>] True step.prems(1) by (simp add: j_def)
      then show ?thesis using True by (simp add: down)
    qed
  qed
qed

lemma down_beyond: "n \<le> k \<Longrightarrow> k < length q \<Longrightarrow> n \<le> length q \<Longrightarrow> down q i n ! k = (q ! k)"
proof (induction q i n rule: down_induct2)
  case (step q i n)
  show ?case
  proof (cases "2 * i + 1 < n \<and> Less q (min_child q i n) i")
    case False
    then have "down q i n = q"
      by (cases "2 * i + 1 < n") (simp_all add: down_step down_leaf)
    then show ?thesis by simp
  next
    case True
    then have j: "min_child q i n < n" "i < min_child q i n"
      using min_child_bounds [of i n q] by auto
    have "down q i n ! k = down (Swap q i (min_child q i n)) (min_child q i n) n ! k"
      using True by (simp add: down_step)
    also have "\<dots> = Swap q i (min_child q i n) ! k"
      using step True by simp
    also have "\<dots> = q ! k"
      using j step.prems by (simp add: Swap_def)
    finally show ?thesis .
  qed
qed

lemma heap_root_min: "heap_ok q \<Longrightarrow> no_nan q \<Longrightarrow> i < length q \<Longrightarrow> hle (prio q 0) (prio q i)"
proof (induction i rule: less_induct)
  case (less i)
  show ?case
  proof (cases "i = 0")
    case True
    then show ?thesis by simp
  next
    case False
    then have lt: "(i - 1) div 2 < i" by simp
    then have len: "(i - 1) div 2 < length q" using less.prems(3) by simp
    have 1: "hle (prio q ((i - 1) div 2)) (prio q i)"
      using less.prems False by (simp add: heap_ok_def heap_upto_def)
    have 2: "hle (prio q 0) (prio q ((i - 1) div 2))"
      by (rule less.IH [OF lt less.prems(1,2) len])
    have "prio q ((i - 1) div 2) \<noteq> NaN" using less.prems(2) len by (simp add: no_nan_def)
    with 2 1 show ?thesis by (rule hle_trans)
  qed
qed

lemma entries_prio: "(v, p) \<in># entries q \<Longrightarrow> \<exists>i < length q. p = prio q i"
  by (auto simp: entries_def prio_def in_set_conv_nth)

lemma heap_Pop_ok:
  assumes ok: "heap_ok q" and nn: "no_nan q" and ne: "q \<noteq> []" and pop: "heap_Pop q = (it, q')"
  shows "heap_ok q'" and "\<forall>v p. (v, p) \<in># entries q \<longrightarrow> hle (priority it) p"
proof -
  define n where "n = length q - 1"
  let ?q1 = "Swap q 0 n"
  let ?q2 = "down ?q1 0 n"
  have n: "n < length q" using ne by (simp add: n_def)
  have it: "it = (last ?q2)\<lparr>index := - 1\<rparr>" and q': "q' = butlast ?q2"
    using pop by (simp_all add: heap_Pop_def Pop_def Let_def n_def)
  have len2: "length ?q2 = length q" by simp
  have P: "prio ?q1 k = (if k = 0 then prio q n else if k = n then prio q 0 else prio q k)" for k
    by (rule prio_Swap) (use n in auto)
  have "down_inv ?q1 0 n"
    unfolding down_inv_def
  proof (intro conjI allI impI)
    fix c assume c: "0 < c \<and> c < n \<and> (c - 1) div 2 \<noteq> 0"
    define pc where "pc = (c - 1) div 2"
    have "pc < c" "pc \<noteq> 0" using c parent_less [of c] by (auto simp: pc_def)
    moreover have "hle (prio q pc) (prio q c)"
      using ok c n by (simp add: heap_ok_def heap_upto_def pc_def)
    ultimately show "hle (prio ?q1 ((c - 1) div 2)) (prio ?q1 c)"
      unfolding pc_def [symmetric] using c by (simp add: P)
  qed simp
  moreover have "no_nan ?q1" by (rule no_nan_Swap) (use n nn in auto)
  ultimately have up2: "heap_upto ?q2 n" by (intro down_heap_upto) (use n in simp_all)
  have "prio q' c = prio ?q2 c" if "c < n" for c
    using that n by (simp add: q' prio_def nth_butlast)
  moreover have "length q' = n" by (simp add: q' n_def)
  ultimately show "heap_ok q'"
    using up2 unfolding heap_ok_def heap_upto_def
    by (metis less_trans parent_less)
  have "?q2 \<noteq> []" using ne len2 by (metis length_0_conv)
  then have "last ?q2 = ?q2 ! n" by (simp add: last_conv_nth n_def)
  also have "\<dots> = ?q1 ! n" using n by (intro down_beyond) simp_all
  finally have "priority it = prio ?q1 n" by (simp add: it prio_def)
  then have root: "priority it = prio q 0" by (simp add: P)
  show "\<forall>v p. (v, p) \<in># entries q \<longrightarrow> hle (priority it) p"
    using heap_root_min [OF ok nn] entries_prio [of _ _ q] unfolding root by blast
qed

lemma heap_ok_Nil [simp]: "heap_ok []"
  by (simp add: heap_ok_def heap_upto_def)

lemma no_nan_entries: "no_nan q \<longleftrightarrow> (\<forall>v p. (v, p) \<in># entries q \<longrightarrow> p \<noteq> NaN)"
proof
  assume nn: "no_nan q"
  show "\<forall>v p. (v, p) \<in># entries q \<longrightarrow> p \<noteq> NaN"
  proof (intro allI impI)
    fix v p assume "(v, p) \<in># entries q"
    then obtain i where "i < length q" "p = prio q i" using entries_prio by blast
    then show "p \<noteq> NaN" using nn by (simp add: no_nan_def)
  qed
next
  assume a: "\<forall>v p. (v, p) \<in># entries q \<longrightarrow> p \<noteq> NaN"
  show "no_nan q"
    unfolding no_nan_def
  proof (intro allI impI)
    fix i assume "i < length q"
    then have "(node (q ! i), prio q i) \<in># entries q"
      by (auto simp: entries_def prio_def intro!: image_eqI [of _ _ "q ! i"])
    then show "prio q i \<noteq> NaN" using a by blast
  qed
qed

lemma edge_neighbor: "edge g u v w \<Longrightarrow> v \<in> fst ` set (row g u)"
  unfolding edge_def by (metis map_of_SomeD fst_conv image_eqI)

section \<open>Paths in a graph without negative weights\<close>

lemma is_path_append_left: "is_path g (p1 @ p2) \<Longrightarrow> p1 \<noteq> [] \<Longrightarrow> is_path g p1"
proof (induction p2 rule: rev_induct)
  case Nil
  then show ?case by simp
next
  case (snoc x p2)
  have "is_path g ((p1 @ p2) @ [x])" using snoc.prems(1) by simp
  then have "is_path g (p1 @ p2)"
    using is_path_snoc_iff [of "p1 @ p2" g x] snoc.prems(2) by simp
  then show ?case using snoc.IH snoc.prems(2) by simp
qed

lemma weight_nonneg: "nonneg g \<Longrightarrow> fle (Fin 0) (weight g u v)"
  unfolding nonneg_def weight_def edge_def by (auto split: option.splits)

lemma cost_from_representable: "representable c \<Longrightarrow> representable (cost_from g c p)"
  by (induction g c p rule: cost_from.induct) (simp_all add: fadd_representable)

lemma path_cost_representable: "representable (path_cost g p)"
  unfolding path_cost_def by (rule cost_from_representable) simp

lemma cost_from_nonneg: "nonneg g \<Longrightarrow> fle (Fin 0) c \<Longrightarrow> fle (Fin 0) (cost_from g c p)"
  by (induction g c p rule: cost_from.induct) (simp_all add: fadd_nonneg weight_nonneg)

lemma path_cost_nonneg: "nonneg g \<Longrightarrow> fle (Fin 0) (path_cost g p)"
  unfolding path_cost_def by (rule cost_from_nonneg) simp_all

lemma fle_not_NaN: "fle a b \<Longrightarrow> a \<noteq> NaN \<and> b \<noteq> NaN"
  by (cases a; cases b) simp_all

lemma path_cost_prefix_le:
  assumes N: "nonneg g"
  shows "fle (path_cost g p1) (path_cost g (p1 @ p2))"
proof (induction p2 rule: rev_induct)
  case Nil
  show ?case using fle_not_NaN [OF path_cost_nonneg [OF N, of p1]] by (simp add: fle_refl)
next
  case (snoc x p2)
  show ?case
  proof (cases "p1 @ p2 = []")
    case True
    then show ?thesis by (simp add: path_cost_def)
  next
    case False
    have "path_cost g (p1 @ p2 @ [x]) = fadd (path_cost g (p1 @ p2)) (weight g (last (p1 @ p2)) x)"
      using path_cost_snoc [OF False, of g x] by simp
    moreover have "fle (path_cost g (p1 @ p2)) (fadd (path_cost g (p1 @ p2)) (weight g (last (p1 @ p2)) x))"
      by (rule fadd_infl [OF path_cost_representable path_cost_nonneg [OF N] weight_nonneg [OF N]])
    ultimately have "fle (path_cost g (p1 @ p2)) (path_cost g (p1 @ p2 @ [x]))" by simp
    with snoc.IH show ?thesis by (rule fle_trans)
  qed
qed

lemma inv_A_visited_cost:
  assumes "inv_A g s st" and "nonneg g" and "dist st v = Some d" and "fless d PInf"
  shows "fle (Fin 0) d" and "representable d"
proof -
  from inv_A_tree [OF assms(1,3,4)] obtain p where "path_cost g (s # p) = d"
    unfolding tree_path_def by blast
  then show "fle (Fin 0) d" and "representable d"
    using path_cost_nonneg [OF assms(2), of "s # p"] path_cost_representable [of g "s # p"] by simp_all
qed

lemma crossing_bound:
  assumes A: "inv_A g s st" and L: "lower_bound g s st" and R: "relaxed_except g st {}"
    and N: "nonneg g"
    and m: "\<And>y dy. \<not> getb (visited st) y \<Longrightarrow> dist st y = Some dy \<Longrightarrow> fle m dy"
  shows "is_path g (pre @ a # rest) \<Longrightarrow> hd (pre @ [a]) = s \<Longrightarrow> getb (visited st) a
         \<Longrightarrow> \<not> getb (visited st) (last (a # rest)) \<Longrightarrow> fle m (path_cost g (pre @ a # rest))"
proof (induction rest arbitrary: pre a)
  case Nil
  then show ?case by simp
next
  case (Cons b rest)
  have path_ab: "is_path g ((pre @ [a]) @ [b])"
    using is_path_append_left [of g "pre @ [a, b]" rest] Cons.prems(1) by simp
  then have path_a: "is_path g (pre @ [a])" and e: "\<exists>w. edge g a b w"
    using is_path_snoc_iff [of "pre @ [a]" g b] by simp_all
  then obtain w where w: "edge g a b w" by blast
  show ?case
  proof (cases "getb (visited st) b")
    case True
    have "fle m (path_cost g ((pre @ [a]) @ b # rest))"
      by (rule Cons.IH) (use Cons.prems True in \<open>auto simp: hd_append split: if_splits\<close>)
    then show ?thesis by simp
  next
    case False
    obtain da where da: "dist st a = Some da" "fless da PInf"
      using inv_A_visited [OF A Cons.prems(3)] by blast
    have da0: "fle (Fin 0) da" by (rule inv_A_visited_cost(1) [OF A N da])
    have w0: "fle (Fin 0) w" using N w by (simp add: nonneg_def)
    have 1: "fle da (path_cost g (pre @ [a]))"
      using L Cons.prems(2,3) da path_a unfolding lower_bound_def by simp
    obtain db where db: "dist st b = Some db" "fle db (fadd da w)"
      using R Cons.prems(3) False w da unfolding relaxed_except_def by blast
    have 2: "fle m db" using m [OF False db(1)] .
    have 3: "fle (fadd da w) (fadd (path_cost g (pre @ [a])) w)"
      by (rule fadd_mono [OF 1 da0 w0])
    have 4: "path_cost g ((pre @ [a]) @ [b]) = fadd (path_cost g (pre @ [a])) w"
      using path_cost_snoc [of "pre @ [a]" g b] weight_edge [OF w] by simp
    have 5: "fle (path_cost g ((pre @ [a]) @ [b])) (path_cost g (((pre @ [a]) @ [b]) @ rest))"
      by (rule path_cost_prefix_le [OF N])
    have "fle m (fadd da w)" using 2 db(2) by (rule fle_trans)
    then have "fle m (path_cost g ((pre @ [a]) @ [b]))" using 3 unfolding 4 by (rule fle_trans)
    then have "fle m (path_cost g (((pre @ [a]) @ [b]) @ rest))" using 5 by (rule fle_trans)
    then show ?thesis by simp
  qed
qed

section \<open>Dijkstra: the returned distance is the least path cost\<close>

lemma inv_A_no_nan_queue: "inv_A g s st \<Longrightarrow> no_nan (pq st)"
  unfolding no_nan_entries using inv_A_queued fle_not_NaN by blast

lemma not_less_PInf: "d \<noteq> NaN \<Longrightarrow> \<not> fless d PInf \<Longrightarrow> d = PInf"
  by (cases d) simp_all

lemma lower_bound_visit:
  assumes A: "inv_A g s st" and H: "heap_ok (pq st)" and L: "lower_bound g s st"
    and R: "relaxed_except g st {}" and N: "nonneg g"
    and ne: "pq st \<noteq> []" and pop: "heap_Pop (pq st) = (it, q)" and u: "\<not> getb (visited st) (node it)"
  shows "lower_bound g s (st\<lparr>visited := (visited st)(node it \<mapsto> True), pq := q\<rparr>)"
proof -
  let ?u = "node it"
  let ?st = "st\<lparr>visited := (visited st)(?u \<mapsto> True), pq := q\<rparr>"
  have nn: "no_nan (pq st)" by (rule inv_A_no_nan_queue [OF A])
  have ent: "entries (pq st) = add_mset (?u, priority it) (entries q)"
    by (rule entries_heap_Pop [OF ne pop])
  then have inq: "(?u, priority it) \<in># entries (pq st)" by simp
  from inv_A_queued [OF A this] obtain x where x: "dist st ?u = Some x" "fless x PInf" "fle x (priority it)"
    by blast
  have xn: "x \<noteq> NaN" and pn: "priority it \<noteq> NaN" using fle_not_NaN [OF x(3)] by simp_all
  have m: "fle x dy" if "\<not> getb (visited st) y" "dist st y = Some dy" for y dy
  proof (cases "fless dy PInf")
    case True
    have "(y, dy) \<in># entries (pq st)" by (rule inv_A_pending [OF A that(2) True that(1)])
    then have "hle (priority it) dy" using heap_Pop_ok(2) [OF H nn ne pop] by blast
    then have "fle (priority it) dy"
      using pn inv_A_no_nan [OF A that(2)] by (rule hle_fle)
    with x(3) show ?thesis by (rule fle_trans)
  next
    case False
    then have "dy = PInf" using inv_A_no_nan [OF A that(2)] by (simp add: not_less_PInf)
    then show ?thesis using xn by simp
  qed
  have new: "fle x (path_cost g p)" if p: "is_path g p" "hd p = s" "last p = ?u" for p
  proof (cases "getb (visited st) s")
    case False
    then have "?u = s" using inv_A_first [OF A False inq] by blast
    then have "x = Fin 0" using x(1) inv_A_source [OF A] by simp
    then show ?thesis using path_cost_nonneg [OF N] by simp
  next
    case True
    obtain rest where rest: "p = s # rest" using p(1,2) by (cases p) auto
    have "fle x (path_cost g ([] @ s # rest))"
      by (rule crossing_bound [OF A L R N m]) (use p rest True u in auto)
    then show ?thesis by (simp add: rest)
  qed
  show ?thesis
    unfolding lower_bound_def
  proof (intro allI impI)
    fix v y p
    assume v: "getb (visited ?st) v" and y: "dist ?st v = Some y"
      and p: "is_path g p" "hd p = s" "last p = v"
    show "fle y (path_cost g p)"
    proof (cases "v = ?u")
      case True
      then show ?thesis using new [of p] p x(1) y by simp
    next
      case False
      then have "getb (visited st) v" using v by (simp add: getb_upd)
      then show ?thesis using L y p unfolding lower_bound_def by simp
    qed
  qed
qed

lemma relaxed_except_visit:
  assumes "relaxed_except g st {}"
  shows "relaxed_except g (st\<lparr>visited := (visited st)(u \<mapsto> True), pq := q\<rparr>) ({u} \<times> UNIV)"
  using assms unfolding relaxed_except_def by (auto simp: getb_upd)

lemma relax_dijkstra_visited_dist:
  "getb (visited st) x \<Longrightarrow> dist (relax_dijkstra u e st) x = dist st x"
  by (cases e) (auto simp: relax_dijkstra_def Let_def)

lemma relax_dijkstra_decreases:
  assumes "dist st y = Some d" and "d \<noteq> NaN"
  shows "\<exists>d'. dist (relax_dijkstra u e st) y = Some d' \<and> fle d' d"
proof -
  obtain v w where e: "e = (v, w)" by (cases e)
  show ?thesis
  proof (cases "y = v \<and> \<not> getb (visited st) v \<and> fless (fadd (getf (dist st) u) w) (getf (dist st) v)")
    case True
    then have "fless (fadd (getf (dist st) u) w) d" using assms(1) by (simp add: getf_def)
    then have "fle (fadd (getf (dist st) u) w) d" by (rule fless_fle)
    then show ?thesis using True by (simp add: e relax_dijkstra_update)
  next
    case False
    then have "dist (relax_dijkstra u e st) y = dist st y"
      by (auto simp: e relax_dijkstra_def Let_def)
    then show ?thesis using assms by (simp add: fle_refl)
  qed
qed

lemma lower_bound_relax:
  "lower_bound g s st \<Longrightarrow> lower_bound g s (relax_dijkstra u e st)"
  unfolding lower_bound_def by (simp add: relax_dijkstra_visited_dist)

lemma edge_unique: "edge g u v w \<Longrightarrow> edge g u v w' \<Longrightarrow> w = w'"
  by (simp add: edge_def)

lemma relaxed_except_relax:
  assumes R: "relaxed_except g st U" and A: "inv_A g s st" and G: "graph_inv g" and N: "nonneg g"
    and u: "getb (visited st) u" and e: "edge g u v w"
  shows "relaxed_except g (relax_dijkstra u (v, w) st) (U - {(u, v)})"
  unfolding relaxed_except_def
proof (intro allI impI)
  let ?st = "relax_dijkstra u (v, w) st"
  fix x y w' dx
  assume x: "getb (visited ?st) x" and y: "\<not> getb (visited ?st) y" and e': "edge g x y w'"
    and nU: "(x, y) \<notin> U - {(u, v)}" and dx: "dist ?st x = Some dx"
  have x': "getb (visited st) x" and y': "\<not> getb (visited st) y" using x y by simp_all
  have dx': "dist st x = Some dx" using dx by (simp add: relax_dijkstra_visited_dist [OF x'])
  show "\<exists>dy. dist ?st y = Some dy \<and> fle dy (fadd dx w')"
  proof (cases "(x, y) = (u, v)")
    case True
    then have w': "w' = w" using e e' edge_unique by blast
    have du: "dist st u = Some dx" using dx' True by simp
    obtain d0 where d0: "dist st u = Some d0" "fless d0 PInf" using inv_A_visited [OF A u] by blast
    then have "fle (Fin 0) dx" using inv_A_visited_cost(1) [OF A N d0] du by simp
    moreover have "fle (Fin 0) w" using N e by (simp add: nonneg_def)
    ultimately have "fle (Fin 0) (fadd dx w)" by (rule fadd_nonneg)
    then have nn: "fadd dx w \<noteq> NaN" using fle_not_NaN by blast
    show ?thesis
    proof (cases "fless (fadd (getf (dist st) u) w) (getf (dist st) v)")
      case less: True
      then show ?thesis using True y' nn by (simp add: relax_dijkstra_update getf_def du w' fle_refl)
    next
      case False
      have "registered g v" using graph_inv_neighbor [OF G edge_neighbor [OF e]] .
      then obtain d where d: "dist st v = Some d" using inv_A_dom [OF A] by blast
      have "\<not> fless (fadd dx w) d" using False d du by (simp add: getf_def)
      then have "fle d (fadd dx w)"
        using nn inv_A_no_nan [OF A d] by (simp add: not_fless_fle)
      then show ?thesis using False True d by (simp add: relax_dijkstra_skip w')
    qed
  next
    case False
    then have "(x, y) \<notin> U" using nU by simp
    then obtain dy where dy: "dist st y = Some dy" "fle dy (fadd dx w')"
      using R x' y' e' dx' unfolding relaxed_except_def by blast
    from relax_dijkstra_decreases [OF dy(1) inv_A_no_nan [OF A dy(1)], of u "(v, w)"]
    obtain d' where "dist ?st y = Some d'" "fle d' dy" by blast
    then show ?thesis using dy(2) fle_trans by blast
  qed
qed

lemma relaxed_except_mono: "relaxed_except g st U \<Longrightarrow> U \<subseteq> U' \<Longrightarrow> relaxed_except g st U'"
  unfolding relaxed_except_def by blast

lemma heap_ok_relax:
  assumes "heap_ok (pq st)" and "no_nan (pq st)"
  shows "heap_ok (pq (relax_dijkstra u e st))"
proof -
  obtain v w where e: "e = (v, w)" by (cases e)
  show ?thesis
  proof (cases "\<not> getb (visited st) v \<and> fless (fadd (getf (dist st) u) w) (getf (dist st) v)")
    case True
    then have "fadd (getf (dist st) u) w \<noteq> NaN" using fless_not_NaN by blast
    then show ?thesis using True assms by (simp add: e relax_dijkstra_update heap_Push_ok)
  next
    case False
    then show ?thesis using assms(1) by (auto simp: e relax_dijkstra_skip)
  qed
qed

lemma inv_B_fold:
  assumes "inv_B g s st ({u} \<times> fst ` set es)" and "graph_inv g" and "nonneg g"
    and "getb (visited st) u" and "\<forall>(v, w) \<in> set es. edge g u v w"
  shows "inv_B g s (fold (relax_dijkstra u) es st) {}"
  using assms
proof (induction es arbitrary: st)
  case Nil
  then show ?case by simp
next
  case (Cons e es)
  obtain v w where e: "e = (v, w)" by (cases e)
  let ?st = "relax_dijkstra u (v, w) st"
  have ed: "edge g u v w" using Cons.prems(5) by (simp add: e)
  have B: "inv_A g s st" "heap_ok (pq st)" "lower_bound g s st"
    "relaxed_except g st ({u} \<times> fst ` set (e # es))"
    using Cons.prems(1) by (simp_all add: inv_B_def)
  have "relaxed_except g ?st ({u} \<times> fst ` set (e # es) - {(u, v)})"
    by (rule relaxed_except_relax [OF B(4,1) Cons.prems(2,3,4) ed])
  then have "relaxed_except g ?st ({u} \<times> fst ` set es)"
    by (rule relaxed_except_mono) (auto simp: e)
  then have 1: "inv_B g s ?st ({u} \<times> fst ` set es)"
    using inv_A_relax [OF B(1) Cons.prems(4) ed] heap_ok_relax [OF B(2) inv_A_no_nan_queue [OF B(1)]]
      lower_bound_relax [OF B(3)]
    by (simp add: inv_B_def)
  have 3: "getb (visited ?st) u" using Cons.prems(4) by simp
  from Cons.IH [OF 1 Cons.prems(2,3) 3] Cons.prems(5) show ?case by (simp add: e)
qed

lemma inv_B_body:
  assumes B: "inv_B g s st {}" and G: "graph_inv g" and N: "nonneg g"
    and ne: "pq st \<noteq> []" and body: "dijkstra_body sch g t st = (b, st')"
  shows "inv_A g s st' \<and> lower_bound g s st' \<and> (b \<longrightarrow> inv_B g s st' {}) \<and> (\<not> b \<longrightarrow> getb (visited st') t)"
proof -
  have A: "inv_A g s st" and H: "heap_ok (pq st)" and L: "lower_bound g s st"
    and R: "relaxed_except g st {}"
    using B by (simp_all add: inv_B_def)
  have nn: "no_nan (pq st)" by (rule inv_A_no_nan_queue [OF A])
  from ne show ?thesis
  proof (cases rule: dijkstra_body_cases [where sch = sch and g = g and t = t])
    case (skip it q)
    then have st': "st' = st\<lparr>pq := q\<rparr>" and b: "b" using body by simp_all
    have "inv_A g s st'" using inv_A_body [OF A ne body] .
    moreover have "heap_ok (pq st')" using heap_Pop_ok(1) [OF H nn ne skip(1)] by (simp add: st')
    moreover have "lower_bound g s st'" using L by (simp add: st' lower_bound_def)
    moreover have "relaxed_except g st' {}" using R by (simp add: st' relaxed_except_def)
    ultimately show ?thesis using b by (simp add: inv_B_def)
  next
    case (break it q)
    then have st': "st' = st\<lparr>visited := (visited st)(node it \<mapsto> True), pq := q\<rparr>" and b: "\<not> b"
      using body by simp_all
    have "lower_bound g s st'"
      unfolding st' by (rule lower_bound_visit [OF A H L R N ne break(1,2)])
    moreover have "getb (visited st') t" using break(3) by (simp add: st' getb_upd)
    ultimately show ?thesis using inv_A_body [OF A ne body] b by simp
  next
    case (expand it q)
    let ?u = "node it"
    let ?st1 = "st\<lparr>visited := (visited st)(?u \<mapsto> True), pq := q\<rparr>"
    let ?es = "go_range (nbr_ord sch ?u) (row g ?u)"
    have st': "st' = fold (relax_dijkstra ?u) ?es ?st1" and b: "b" using expand(4) body by simp_all
    have ent: "entries (pq st) = add_mset (?u, priority it) (entries q)"
      by (rule entries_heap_Pop [OF ne expand(1)])
    have A1: "inv_A g s ?st1" by (rule inv_A_visit [OF A ent expand(2)])
    have H1: "heap_ok (pq ?st1)" using heap_Pop_ok(1) [OF H nn ne expand(1)] by simp
    have L1: "lower_bound g s ?st1" by (rule lower_bound_visit [OF A H L R N ne expand(1,2)])
    have RU: "relaxed_except g ?st1 ({?u} \<times> UNIV)" by (rule relaxed_except_visit [OF R])
    have R1: "relaxed_except g ?st1 ({?u} \<times> fst ` set ?es)"
      unfolding relaxed_except_def
    proof (intro allI impI)
      fix x y w dx
      assume x: "getb (visited ?st1) x" and y: "\<not> getb (visited ?st1) y" and e: "edge g x y w"
        and nU: "(x, y) \<notin> {?u} \<times> fst ` set ?es" and dx: "dist ?st1 x = Some dx"
      have "x \<noteq> ?u"
      proof
        assume "x = ?u"
        then have "y \<in> fst ` set ?es" using edge_neighbor [OF e] by (simp add: dom_clearjunk)
        with nU \<open>x = ?u\<close> show False by simp
      qed
      then have "(x, y) \<notin> {?u} \<times> (UNIV :: int set)" by simp
      with RU x y e dx show "\<exists>dy. dist ?st1 y = Some dy \<and> fle dy (fadd dx w)"
        unfolding relaxed_except_def by blast
    qed
    have "inv_B g s ?st1 ({?u} \<times> fst ` set ?es)"
      using A1 H1 L1 R1 by (simp add: inv_B_def)
    then have "inv_B g s st' {}"
      unfolding st' by (rule inv_B_fold [OF _ G N]) (simp_all add: getb_upd row_edges del: set_go_range)
    then show ?thesis using b by (simp add: inv_B_def)
  qed
qed

text \<open>
  The state in which the loop ends: the target has been visited, or the queue is empty
  and every edge that leaves a visited node has been relaxed.
\<close>

lemma dijkstra_final:
  assumes G: "graph_inv g" and N: "nonneg g"
  shows "inv_A g s (dijkstra_loop sch g t (init_state ord g s (Fin 0))) \<and>
         lower_bound g s (dijkstra_loop sch g t (init_state ord g s (Fin 0))) \<and>
         (getb (visited (dijkstra_loop sch g t (init_state ord g s (Fin 0)))) t \<or>
          pq (dijkstra_loop sch g t (init_state ord g s (Fin 0))) = [] \<and>
          relaxed_except g (dijkstra_loop sch g t (init_state ord g s (Fin 0))) {})"
proof -
  let ?Q = "\<lambda>st. inv_A g s st \<and> lower_bound g s st \<and>
                  (getb (visited st) t \<or> pq st = [] \<and> relaxed_except g st {})"
  have "heap_ok (pq (init_state ord g s (Fin 0)))"
    by (simp add: init_state_def heap_Push_ok no_nan_def)
  then have "inv_B g s (init_state ord g s (Fin 0)) {}"
    unfolding inv_B_def
    by (simp add: inv_A_init) (simp add: init_state_def lower_bound_def relaxed_except_def getb_def)
  then show "?Q (dijkstra_loop sch g t (init_state ord g s (Fin 0)))"
  proof (induction rule: dijkstra_loop_exit_rule)
    case (turn st st')
    then show ?case using inv_B_body [OF _ G N] by blast
  next
    case (empty st)
    then show ?case by (simp add: inv_B_def)
  next
    case (break st st')
    then show ?case using inv_B_body [OF _ G N] by blast
  qed
qed

text \<open>
  At the end the distance of the target, and of every node if the target was never
  visited, is a lower bound of the cost of every path from the source.
\<close>

lemma dijkstra_bound:
  assumes G: "graph_inv g" and N: "nonneg g"
    and p: "is_path g p" "hd p = s" "last p = v"
    and d: "dist (dijkstra_loop sch g t (init_state ord g s (Fin 0))) v = Some d"
    and v: "v = t \<or> \<not> getb (visited (dijkstra_loop sch g t (init_state ord g s (Fin 0)))) t"
  shows "fle d (path_cost g p)"
proof -
  define st where "st = dijkstra_loop sch g t (init_state ord g s (Fin 0))"
  have A: "inv_A g s st" and L: "lower_bound g s st"
    and E: "getb (visited st) t \<or> pq st = [] \<and> relaxed_except g st {}"
    using dijkstra_final [OF G N, of s sch t ord] by (simp_all add: st_def)
  have d': "dist st v = Some d" using d by (simp add: st_def)
  show ?thesis
  proof (cases "getb (visited st) v")
    case True
    then show ?thesis using L d' p unfolding lower_bound_def by simp
  next
    case False
    then have "\<not> getb (visited st) t" using v by (auto simp: st_def)
    then have e: "pq st = []" and R: "relaxed_except g st {}" using E by simp_all
    have inf: "dy = PInf" if "\<not> getb (visited st) y" "dist st y = Some dy" for y dy
    proof (rule not_less_PInf [OF inv_A_no_nan [OF A that(2)]])
      show "\<not> fless dy PInf"
      proof
        assume "fless dy PInf"
        from inv_A_pending [OF A that(2) this that(1)] show False by (simp add: e)
      qed
    qed
    then have dinf: "d = PInf" using False d' by blast
    have sv: "getb (visited st) s"
    proof (rule ccontr)
      assume "\<not> getb (visited st) s"
      from inf [OF this inv_A_source [OF A]] show False by simp
    qed
    obtain rest where rest: "p = s # rest" using p(1,2) by (cases p) auto
    have "fle PInf (path_cost g ([] @ s # rest))"
      by (rule crossing_bound [OF A L R N]) (use inf p rest sv False in auto)
    then show ?thesis by (simp add: rest dinf)
  qed
qed

text \<open>
  What \<open>Dijkstra\<close> returns for a target that is registered, or is the source: a distance
  that no path from the source to the target undercuts, and either the infinite distance
  and the empty path, or a path from the source to the target whose cost is the distance.
\<close>

lemma dijkstra_result:
  assumes G: "graph_inv g" and N: "nonneg g" and t: "registered g t \<or> t = s"
  shows "\<exists>d q. Dijkstra sch g s t = Some (d, q) \<and>
               (\<forall>p. is_path g p \<and> hd p = s \<and> last p = t \<longrightarrow> fle d (path_cost g p)) \<and>
               (d = PInf \<and> q = [] \<or>
                fless d PInf \<and> is_path g q \<and> hd q = s \<and> last q = t \<and> path_cost g q = d)"
proof -
  let ?st = "dijkstra_loop sch g t (init_state (nodes_ord sch) g s (Fin 0))"
  have A: "inv_A g s ?st" by (rule inv_A_final)
  obtain d where d: "dist ?st t = Some d"
    using t inv_A_dom [OF A, of t] inv_A_source [OF A] by auto
  have bound: "fle d (path_cost g p)" if "is_path g p \<and> hd p = s \<and> last p = t" for p
    using dijkstra_bound [OF G N _ _ _ d] that by blast
  show ?thesis
  proof (cases "fless d PInf")
    case True
    from inv_A_tree [OF A d True] obtain q where q: "back_path (prev ?st) s t q" "is_path g (s # q)"
      "path_cost g (s # q) = d"
      unfolding tree_path_def by blast
    have "walk_back (prev ?st) s t [] = Some q"
      using back_path_walk [OF q(1), of "[]"] by simp
    moreover have "d \<noteq> PInf" using True by auto
    ultimately have "Dijkstra sch g s t = Some (d, s # q)"
      using d by (simp add: Dijkstra_def reconstruct_def getf_def)
    moreover have "last (s # q) = t" by (rule back_path_last [OF q(1)])
    ultimately show ?thesis using q(2,3) True bound by (intro exI [of _ d] exI [of _ "s # q"]) simp
  next
    case False
    then have "d = PInf" using inv_A_no_nan [OF A d] by (simp add: not_less_PInf)
    then have "Dijkstra sch g s t = Some (d, [])"
      using d by (simp add: Dijkstra_def reconstruct_def getf_def)
    then show ?thesis using \<open>d = PInf\<close> bound by (intro exI [of _ d] exI [of _ "[]"]) simp
  qed
qed

text \<open>The distance does not depend on the iteration orders.\<close>

lemma dijkstra_same_distance:
  assumes G: "graph_inv g" and N: "nonneg g" and t: "registered g t \<or> t = s"
  shows "\<exists>d q q'. Dijkstra sch g s t = Some (d, q) \<and> Dijkstra sch' g s t = Some (d, q')"
proof -
  from dijkstra_result [OF G N t, of sch] obtain d q where 1: "Dijkstra sch g s t = Some (d, q)"
    "\<And>p. is_path g p \<and> hd p = s \<and> last p = t \<Longrightarrow> fle d (path_cost g p)"
    "d = PInf \<and> q = [] \<or> fless d PInf \<and> is_path g q \<and> hd q = s \<and> last q = t \<and> path_cost g q = d"
    by blast
  from dijkstra_result [OF G N t, of sch'] obtain d' q' where 2: "Dijkstra sch' g s t = Some (d', q')"
    "\<And>p. is_path g p \<and> hd p = s \<and> last p = t \<Longrightarrow> fle d' (path_cost g p)"
    "d' = PInf \<and> q' = [] \<or> fless d' PInf \<and> is_path g q' \<and> hd q' = s \<and> last q' = t \<and> path_cost g q' = d'"
    by blast
  have n: "d \<noteq> NaN" "d' \<noteq> NaN" using 1(3) 2(3) fless_not_NaN by blast+
  have "fle d d'" using 2(3) 1(2) [of q'] n by auto
  moreover have "fle d' d" using 1(3) 2(2) [of q] n by auto
  ultimately have "d = d'" by (rule fle_antisym)
  then show ?thesis using 1(1) 2(1) by blast
qed

section \<open>Breadth-first search: the invariant of the loop\<close>

lemma bfs_loop_rule [consumes 1, case_names turn empty break]:
  assumes "I st"
    and "\<And>st u q. I st \<Longrightarrow> queue st = u # q \<Longrightarrow> u \<noteq> t
           \<Longrightarrow> I (fold (bfs_visit u) (neighbors sch g u) (st\<lparr>queue := q\<rparr>))"
    and "\<And>st. I st \<Longrightarrow> queue st = [] \<Longrightarrow> Q st"
    and "\<And>st q. I st \<Longrightarrow> queue st = t # q \<Longrightarrow> Q (st\<lparr>queue := q\<rparr>)"
  shows "Q (bfs_loop sch g t st)"
proof -
  have "I st \<longrightarrow> Q (bfs_loop sch' g' t' st)" if "sch' = sch" "g' = g" "t' = t" for sch' g' t'
    using that
  proof (induction sch' g' t' st rule: bfs_loop.induct)
    case (1 sch' g' t' st)
    show ?case
    proof (cases "queue st")
      case Nil
      then show ?thesis using assms(3) by (subst bfs_loop.simps) simp
    next
      case (Cons u q)
      show ?thesis
      proof (cases "u = t'")
        case True
        then show ?thesis using assms(4) Cons 1(2-) by (subst bfs_loop.simps) simp
      next
        case False
        show ?thesis
        proof
          assume "I st"
          then have "I (fold (bfs_visit u) (neighbors sch g u) (st\<lparr>queue := q\<rparr>))"
            using assms(2) Cons False 1(4) by simp
          then have "Q (bfs_loop sch' g' t' (fold (bfs_visit u) (neighbors sch' g' u) (st\<lparr>queue := q\<rparr>)))"
            using 1(1) [OF Cons False] 1(2-) by simp
          then show "Q (bfs_loop sch' g' t' st)"
            using Cons False by (subst bfs_loop.simps) simp
        qed
      qed
    qed
  qed
  then show ?thesis using assms(1) by simp
qed

lemma bfs_mid_mono: "bfs_mid g st u P \<Longrightarrow> P \<subseteq> P' \<Longrightarrow> bfs_mid g st u P'"
  unfolding bfs_mid_def by blast

lemma bfs_dequeue:
  assumes B: "bfs_base g s t st" and H: "bfs_head g st" and q: "queue st = u # q" and ut: "u \<noteq> t"
  shows "bfs_base g s t (st\<lparr>queue := q\<rparr>)" and "bfs_mid g (st\<lparr>queue := q\<rparr>) u (fst ` set (row g u))"
proof -
  let ?st = "st\<lparr>queue := q\<rparr>"
  have dv: "dval ?st = dval st" by (simp add: dval_def fun_eq_iff)
  have tr: "bfs_tree g s ?st v = bfs_tree g s st v" for v by (simp add: bfs_tree_def)
  show "bfs_base g s t ?st"
    using B ut unfolding bfs_base_def dv tr by (auto simp: q)
  have u: "getb (visited_b st) u" "u \<notin> set q" "\<forall>y \<in> set q. dval st u \<le> dval st y"
    using B unfolding bfs_base_def by (auto simp: q)
  have He: "\<And>x y. x \<in> set (queue st) \<Longrightarrow> getb (visited_b st) y \<Longrightarrow> dval st y \<le> dval st x + 1"
    and Hf: "\<And>x y w. getb (visited_b st) x \<Longrightarrow> x \<notin> set (queue st) \<Longrightarrow> edge g x y w
               \<Longrightarrow> getb (visited_b st) y \<and> dval st y \<le> dval st x + 1"
    and Hg: "\<And>x y. getb (visited_b st) x \<Longrightarrow> x \<notin> set (queue st) \<Longrightarrow> y \<in> set (queue st)
               \<Longrightarrow> dval st x \<le> dval st y"
    using H unfolding bfs_head_def by blast+
  have e: "\<forall>y. getb (visited_b st) y \<longrightarrow> dval st y \<le> dval st u + 1"
    using He [of u] by (simp add: q)
  have f: "getb (visited_b st) y \<and> dval st y \<le> dval st x + 1"
    if "getb (visited_b st) x" "x \<notin> set q" "edge g x y w" "x = u \<longrightarrow> y \<notin> fst ` set (row g u)" for x y w
  proof -
    have "x \<noteq> u" using that(3,4) edge_neighbor by blast
    then have "x \<notin> set (queue st)" using that(2) by (simp add: q)
    then show ?thesis using Hf that(1,3) by blast
  qed
  have g: "dval st x \<le> dval st u" if "getb (visited_b st) x" "x \<notin> set q" for x
  proof (cases "x = u")
    case False
    then have "x \<notin> set (queue st)" using that(2) by (simp add: q)
    then show ?thesis using Hg [of x u] that(1) by (simp add: q)
  qed simp
  show "bfs_mid g ?st u (fst ` set (row g u))"
    unfolding bfs_mid_def dv using u e f g by simp
qed

lemma bfs_finish:
  assumes "bfs_mid g st u {}"
  shows "bfs_head g st"
  unfolding bfs_head_def
proof (intro conjI ballI allI impI)
  fix x y assume "x \<in> set (queue st)" "getb (visited_b st) y"
  then have "dval st y \<le> dval st u + 1" "dval st u \<le> dval st x"
    using assms unfolding bfs_mid_def by blast+
  then show "dval st y \<le> dval st x + 1" by simp
next
  fix x y w assume "getb (visited_b st) x" "x \<notin> set (queue st)" "edge g x y w"
  then show "getb (visited_b st) y" "dval st y \<le> dval st x + 1"
    using assms unfolding bfs_mid_def by blast+
next
  fix x y assume "getb (visited_b st) x" "x \<notin> set (queue st)" "y \<in> set (queue st)"
  then have "dval st x \<le> dval st u" "dval st u \<le> dval st y"
    using assms unfolding bfs_mid_def by blast+
  then show "dval st x \<le> dval st y" by simp
qed

lemma bfs_visit_old: "getb (visited_b st) v \<Longrightarrow> bfs_visit u v st = st"
  by (simp add: bfs_visit_def)

lemma bfs_visit_new:
  "\<not> getb (visited_b st) v \<Longrightarrow>
   bfs_visit u v st =
     st\<lparr>visited_b := (visited_b st)(v \<mapsto> True), parent := (parent st)(v \<mapsto> u),
        distance := (distance st)(v \<mapsto> geti (distance st) u + 1), queue := queue st @ [v]\<rparr>"
  by (simp add: bfs_visit_def)

lemma bfs_tree_dval: "bfs_tree g s st v \<Longrightarrow> 0 \<le> dval st v"
  unfolding bfs_tree_def dval_def geti_def by auto

lemma bfs_visit_step:
  assumes B: "bfs_base g s t st" and M: "bfs_mid g st u P" and e: "edge g u v w"
  shows "bfs_base g s t (bfs_visit u v st) \<and> bfs_mid g (bfs_visit u v st) u (P - {v})"
proof -
  have Bs: "getb (visited_b st) s"
    and Bt: "\<And>y. getb (visited_b st) y \<Longrightarrow> bfs_tree g s st y"
    and Bq: "\<And>y. y \<in> set (queue st) \<Longrightarrow> getb (visited_b st) y"
    and Bh: "getb (visited_b st) t \<Longrightarrow> t \<in> set (queue st)"
    and Bd: "distinct (queue st)" and Bo: "sorted (map (dval st) (queue st))"
    using B unfolding bfs_base_def by blast+
  have Mu: "getb (visited_b st) u" "u \<notin> set (queue st)"
    and Md: "\<And>y. y \<in> set (queue st) \<Longrightarrow> dval st u \<le> dval st y"
    and Me: "\<And>y. getb (visited_b st) y \<Longrightarrow> dval st y \<le> dval st u + 1"
    and Mf: "\<And>x y w. getb (visited_b st) x \<Longrightarrow> x \<notin> set (queue st) \<Longrightarrow> edge g x y w \<Longrightarrow> (x = u \<longrightarrow> y \<notin> P)
               \<Longrightarrow> getb (visited_b st) y \<and> dval st y \<le> dval st x + 1"
    and Mg: "\<And>x. getb (visited_b st) x \<Longrightarrow> x \<notin> set (queue st) \<Longrightarrow> dval st x \<le> dval st u"
    using M unfolding bfs_mid_def by blast+
  show ?thesis
  proof (cases "getb (visited_b st) v")
  case True
  have "getb (visited_b st) y \<and> dval st y \<le> dval st x + 1"
    if "getb (visited_b st) x" "x \<notin> set (queue st)" "edge g x y w'" "x = u \<longrightarrow> y \<notin> P - {v}" for x y w'
  proof (cases "x = u \<and> y = v")
    case xy: True
    then show ?thesis using True Me [OF True] by simp
  next
    case False
    then have "x = u \<longrightarrow> y \<notin> P" using that(4) by auto
    then show ?thesis using Mf that(1-3) by blast
  qed
  then have "bfs_mid g st u (P - {v})"
    unfolding bfs_mid_def using Mu Md Me Mg by blast
  then show ?thesis using B True by (simp add: bfs_visit_old)
next
  case False
  let ?st = "st\<lparr>visited_b := (visited_b st)(v \<mapsto> True), parent := (parent st)(v \<mapsto> u),
                 distance := (distance st)(v \<mapsto> geti (distance st) u + 1), queue := queue st @ [v]\<rparr>"
  have st': "bfs_visit u v st = ?st" by (rule bfs_visit_new [OF False])
  have vu: "v \<noteq> u" and vs: "v \<noteq> s" using False Mu(1) Bs by auto
  have vq: "v \<notin> set (queue st)" using Bq False by blast
  have vis: "getb (visited_b ?st) y \<longleftrightarrow> y = v \<or> getb (visited_b st) y" for y
    by (simp add: getb_upd)
  have dv: "dval ?st y = (if y = v then dval st u + 1 else dval st y)" for y
    by (simp add: dval_def geti_def)
  have tree: "bfs_tree g s ?st y" if y: "getb (visited_b ?st) y" for y
  proof (cases "y = v")
    case True
    from Bt [OF Mu(1)] obtain p where p: "back_path (parent st) s u p" "is_path g (s # p)"
      "distance st u = Some (int (length p))" "\<forall>n \<in> set (s # p). getb (visited_b st) n"
      unfolding bfs_tree_def by blast
    have last: "last (s # p) = u" by (rule back_path_last [OF p(1)])
    have "v \<notin> set p" using p(4) False by auto
    then have "back_path (parent ?st) s u p"
      using back_path_upd [OF p(1), of v u] by simp
    then have "back_path (parent ?st) s (geti (parent ?st) v) p" by (simp add: geti_def)
    then have 1: "back_path (parent ?st) s v (p @ [v])" by (rule back_path.hop [OF vs])
    have 2: "is_path g (s # p @ [v])"
      using is_path_snoc_iff [of "s # p" g v] p(2) e last by auto
    have 3: "distance ?st v = Some (int (length (p @ [v])))"
      using p(3) by (simp add: geti_def)
    have 4: "\<forall>n \<in> set (s # p @ [v]). getb (visited_b ?st) n"
      using p(4) by (simp add: getb_upd)
    show ?thesis unfolding bfs_tree_def True using 1 2 3 4 by blast
  next
    case nv: False
    then have "getb (visited_b st) y" using y by (simp add: getb_upd)
    from Bt [OF this] obtain p where p: "back_path (parent st) s y p" "is_path g (s # p)"
      "distance st y = Some (int (length p))" "\<forall>n \<in> set (s # p). getb (visited_b st) n"
      unfolding bfs_tree_def by blast
    have "v \<notin> set p" using p(4) False by auto
    then have 1: "back_path (parent ?st) s y p"
      using back_path_upd [OF p(1), of v u] by simp
    have 3: "distance ?st y = Some (int (length p))" using p(3) nv by simp
    have 4: "\<forall>n \<in> set (s # p). getb (visited_b ?st) n"
      using p(4) by (simp add: getb_upd)
    show ?thesis unfolding bfs_tree_def using 1 p(2) 3 4 by blast
  qed
  have same: "map (dval ?st) (queue st) = map (dval st) (queue st)"
    by (rule map_cong [OF refl]) (use vq in \<open>auto simp: dv\<close>)
  have "\<forall>y \<in> set (queue st). dval st y \<le> dval st u + 1"
    using Me Bq by blast
  then have "sorted (map (dval ?st) (queue st) @ [dval ?st v])"
    unfolding same using Bo by (simp add: sorted_append dv)
  then have sorted: "sorted (map (dval ?st) (queue ?st))" by simp
  have "getb (visited_b ?st) s" using Bs by (simp add: getb_upd)
  moreover have "\<forall>y \<in> set (queue ?st). getb (visited_b ?st) y" using Bq by (simp add: getb_upd)
  moreover have "getb (visited_b ?st) t \<longrightarrow> t \<in> set (queue ?st)" using Bh by (auto simp: getb_upd)
  moreover have "distinct (queue ?st)" using Bd vq by simp
  ultimately have base: "bfs_base g s t ?st"
    unfolding bfs_base_def using tree sorted by blast
  have mid: "bfs_mid g ?st u (P - {v})"
    unfolding bfs_mid_def
  proof (intro conjI ballI allI impI)
    show "getb (visited_b ?st) u" using Mu(1) by (simp add: getb_upd)
    show "u \<notin> set (queue ?st)" using Mu(2) vu by simp
  next
    fix y assume "y \<in> set (queue ?st)"
    then show "dval ?st u \<le> dval ?st y" using Md vu by (auto simp: dv)
  next
    fix y assume "getb (visited_b ?st) y"
    then show "dval ?st y \<le> dval ?st u + 1" using Me vu by (auto simp: dv getb_upd)
  next
    fix x y w'
    assume x: "getb (visited_b ?st) x" "x \<notin> set (queue ?st)" and e': "edge g x y w'"
      and P: "x = u \<longrightarrow> y \<notin> P - {v}"
    have xv: "x \<noteq> v" and x': "getb (visited_b st) x" "x \<notin> set (queue st)"
      using x by (auto simp: getb_upd)
    have "getb (visited_b ?st) y \<and> dval ?st y \<le> dval ?st x + 1"
    proof (cases "x = u \<and> y = v")
      case True
      then show ?thesis using vu by (simp add: dv getb_upd)
    next
      case False
      then have "x = u \<longrightarrow> y \<notin> P" using P by auto
      from Mf [OF x' e' this] have y: "getb (visited_b st) y" "dval st y \<le> dval st x + 1" by auto
      then have "y \<noteq> v" using \<open>\<not> getb (visited_b st) v\<close> by auto
      then show ?thesis using y xv by (simp add: dv getb_upd)
    qed
    then show "getb (visited_b ?st) y" "dval ?st y \<le> dval ?st x + 1" by simp_all
  next
    fix x assume x: "getb (visited_b ?st) x" "x \<notin> set (queue ?st)"
    then have "x \<noteq> v" "getb (visited_b st) x" "x \<notin> set (queue st)" by (auto simp: getb_upd)
    then show "dval ?st x \<le> dval ?st u" using Mg vu by (simp add: dv)
  qed
  show ?thesis using base mid by (simp add: st')
qed
qed

lemma bfs_fold_step:
  assumes "bfs_base g s t st" and "bfs_mid g st u (set vs)" and "\<forall>v \<in> set vs. \<exists>w. edge g u v w"
  shows "bfs_base g s t (fold (bfs_visit u) vs st) \<and> bfs_mid g (fold (bfs_visit u) vs st) u {}"
  using assms
proof (induction vs arbitrary: st)
  case Nil
  then show ?case by simp
next
  case (Cons v vs)
  obtain w where w: "edge g u v w" using Cons.prems(3) by auto
  from bfs_visit_step [OF Cons.prems(1,2) w]
  have 1: "bfs_base g s t (bfs_visit u v st)" and "bfs_mid g (bfs_visit u v st) u (set (v # vs) - {v})"
    by simp_all
  then have 2: "bfs_mid g (bfs_visit u v st) u (set vs)"
    by (auto intro: bfs_mid_mono)
  from Cons.IH [OF 1 2] Cons.prems(3) show ?case by simp
qed

lemma neighbors_edges: "\<forall>v \<in> set (neighbors sch g u). \<exists>w. edge g u v w"
proof
  fix v assume "v \<in> set (neighbors sch g u)"
  then have "v \<in> fst ` set (row g u)" by simp
  then have "v \<in> fst ` set (AList.clearjunk (row g u))" by (simp add: dom_clearjunk)
  then obtain w where "(v, w) \<in> set (AList.clearjunk (row g u))" by auto
  then have "map_of (row g u) v = Some w"
    using go_range_iff [of v w "\<lambda>_. 0" "row g u"] by simp
  then show "\<exists>w. edge g u v w" by (auto simp: edge_def)
qed

lemma bfs_turn:
  assumes B: "bfs_base g s t st" and H: "bfs_head g st" and q: "queue st = u # q" and ut: "u \<noteq> t"
  shows "bfs_base g s t (fold (bfs_visit u) (neighbors sch g u) (st\<lparr>queue := q\<rparr>)) \<and>
         bfs_head g (fold (bfs_visit u) (neighbors sch g u) (st\<lparr>queue := q\<rparr>))"
proof -
  have "bfs_mid g (st\<lparr>queue := q\<rparr>) u (set (neighbors sch g u))"
    using bfs_dequeue(2) [OF B H q ut] by simp
  from bfs_fold_step [OF bfs_dequeue(1) [OF B H q ut] this neighbors_edges]
  show ?thesis using bfs_finish by blast
qed

section \<open>Breadth-first search: the hop count is the least number of edges\<close>

lemma back_path_source: "back_path prv s s p \<Longrightarrow> p = []"
  by (cases rule: back_path.cases) auto

lemma bfs_tree_source: "bfs_tree g s st s \<Longrightarrow> dval st s = 0"
  unfolding bfs_tree_def dval_def geti_def using back_path_source by fastforce

lemma bfs_init:
  assumes "s \<noteq> t"
  shows "bfs_base g s t \<lparr>visited_b = [s \<mapsto> True], queue = [s], parent = Map.empty, distance = [s \<mapsto> 0]\<rparr>"
    and "bfs_head g \<lparr>visited_b = [s \<mapsto> True], queue = [s], parent = Map.empty, distance = [s \<mapsto> 0]\<rparr>"
proof -
  let ?st = "\<lparr>visited_b = [s \<mapsto> True], queue = [s], parent = Map.empty, distance = [s \<mapsto> 0]\<rparr>"
  have vis: "getb [s \<mapsto> True] y \<longleftrightarrow> y = s" for y by (simp add: getb_def)
  have "back_path (parent ?st) s s []" by (rule back_path.stop)
  then have "bfs_tree g s ?st s"
    unfolding bfs_tree_def by (intro exI [of _ "[]"]) (simp add: vis)
  then show "bfs_base g s t ?st"
    unfolding bfs_base_def using assms by (simp add: vis)
  show "bfs_head g ?st"
    unfolding bfs_head_def by (simp add: vis)
qed

lemma bfs_walk_bound:
  assumes B: "bfs_base g s t st" and H: "bfs_head g st" and q: "queue st = t # q"
  shows "is_path g (a # rest) \<Longrightarrow> getb (visited_b st) a \<Longrightarrow> dval st a \<le> k \<Longrightarrow> last (a # rest) = t
         \<Longrightarrow> dval st t \<le> k + int (length rest)"
proof (induction rest arbitrary: a k)
  case Nil
  then show ?case by simp
next
  case (Cons b rest)
  have "sorted (map (dval st) (t # q))" using B unfolding bfs_base_def by (simp add: q)
  then have head: "dval st t \<le> dval st y" if "y \<in> set (queue st)" for y
    using that by (auto simp: q)
  show ?case
  proof (cases "a \<in> set (queue st)")
    case True
    then show ?thesis using head [OF True] Cons.prems(3) by simp
  next
    case False
    obtain w where w: "edge g a b w" using Cons.prems(1) by auto
    have "getb (visited_b st) b \<and> dval st b \<le> dval st a + 1"
      using H Cons.prems(2) False w unfolding bfs_head_def by blast
    then have "dval st t \<le> (k + 1) + int (length rest)"
      using Cons.prems by (intro Cons.IH) auto
    then show ?thesis by simp
  qed
qed

lemma bfs_loop_result:
  assumes st: "s \<noteq> t" and r: "reachable g s t"
  shows "\<exists>p. getb (visited_b (bfs_loop sch g t \<lparr>visited_b = [s \<mapsto> True], queue = [s], parent = Map.empty, distance = [s \<mapsto> 0]\<rparr>)) t \<and>
             back_path (parent (bfs_loop sch g t \<lparr>visited_b = [s \<mapsto> True], queue = [s], parent = Map.empty, distance = [s \<mapsto> 0]\<rparr>)) s t p \<and>
             distance (bfs_loop sch g t \<lparr>visited_b = [s \<mapsto> True], queue = [s], parent = Map.empty, distance = [s \<mapsto> 0]\<rparr>) t = Some (int (length p)) \<and>
             is_path g (s # p) \<and>
             (\<forall>p'. is_path g p' \<and> hd p' = s \<and> last p' = t \<longrightarrow> int (length p) \<le> int (length p') - 1)"
proof -
  let ?st0 = "\<lparr>visited_b = [s \<mapsto> True], queue = [s], parent = Map.empty, distance = [s \<mapsto> 0]\<rparr>"
  let ?I = "\<lambda>st. bfs_base g s t st \<and> bfs_head g st"
  let ?Q = "\<lambda>st. \<exists>p. getb (visited_b st) t \<and> back_path (parent st) s t p \<and>
                     distance st t = Some (int (length p)) \<and> is_path g (s # p) \<and>
                     (\<forall>p'. is_path g p' \<and> hd p' = s \<and> last p' = t \<longrightarrow> int (length p) \<le> int (length p') - 1)"
  have "?I ?st0" using bfs_init [OF st] by simp
  then show "?Q (bfs_loop sch g t ?st0)"
  proof (induction rule: bfs_loop_rule)
    case (turn st u q)
    then show ?case using bfs_turn by blast
  next
    case (empty st)
    then have B: "bfs_base g s t st" and H: "bfs_head g st" by simp_all
    have "getb (visited_b st) v" if "reachable g s v" for v
      using that
    proof (induction rule: reachable.induct)
      case here
      show ?case using B unfolding bfs_base_def by simp
    next
      case (step u v w)
      then show ?case using H empty(2) unfolding bfs_head_def by auto
    qed
    then have "getb (visited_b st) t" using r by simp
    then have False using B empty(2) unfolding bfs_base_def by simp
    then show ?case ..
  next
    case (break st q)
    then have B: "bfs_base g s t st" and H: "bfs_head g st" by simp_all
    have vt: "getb (visited_b st) t" using B break(2) unfolding bfs_base_def by simp
    then have "bfs_tree g s st t" using B unfolding bfs_base_def by blast
    then obtain p where p: "back_path (parent st) s t p" "is_path g (s # p)"
      "distance st t = Some (int (length p))"
      unfolding bfs_tree_def by blast
    have vs: "getb (visited_b st) s" and "bfs_tree g s st s" using B unfolding bfs_base_def by blast+
    then have ds: "dval st s = 0" using bfs_tree_source by blast
    have lb: "int (length p) \<le> int (length p') - 1" if p': "is_path g p'" "hd p' = s" "last p' = t" for p'
    proof -
      obtain rest where rest: "p' = s # rest" using p'(1,2) by (cases p') auto
      have "dval st t \<le> 0 + int (length rest)"
        by (rule bfs_walk_bound [OF B H break(2)]) (use p' rest vs ds in auto)
      moreover have "dval st t = int (length p)" using p(3) by (simp add: dval_def geti_def)
      ultimately show ?thesis by (simp add: rest)
    qed
    show ?case using vt p lb by (intro exI [of _ p]) simp
  qed
qed

lemma bfs_correct:
  assumes st: "s \<noteq> t" and r: "reachable g s t"
  shows "\<exists>p. BFS sch g s t = Some (int (length p) - 1, p) \<and> is_path g p \<and> hd p = s \<and> last p = t \<and>
             (\<forall>p'. is_path g p' \<and> hd p' = s \<and> last p' = t \<longrightarrow> length p \<le> length p')"
proof -
  let ?st = "bfs_loop sch g t \<lparr>visited_b = [s \<mapsto> True], queue = [s], parent = Map.empty, distance = [s \<mapsto> 0]\<rparr>"
  from bfs_loop_result [OF st r, of sch] obtain p where p: "getb (visited_b ?st) t"
    "back_path (parent ?st) s t p" "distance ?st t = Some (int (length p))" "is_path g (s # p)"
    "\<And>p'. is_path g p' \<and> hd p' = s \<and> last p' = t \<Longrightarrow> int (length p) \<le> int (length p') - 1"
    by blast
  have "walk_back (parent ?st) s t [] = Some p"
    using back_path_walk [OF p(2), of "[]"] by simp
  then have "BFS sch g s t = Some (int (length p), s # p)"
    using st p(1,3) by (simp add: BFS_def Let_def geti_def)
  moreover have "last (s # p) = t" by (rule back_path_last [OF p(2)])
  moreover have "length (s # p) \<le> length p'" if "is_path g p' \<and> hd p' = s \<and> last p' = t" for p'
    using p(5) [OF that] by simp
  ultimately show ?thesis using p(4) by (intro exI [of _ "s # p"]) simp
qed

lemma unit_nonneg: "unit_weights g \<Longrightarrow> nonneg g"
  unfolding unit_weights_def nonneg_def by fastforce

text \<open>
  With unit weights the cost of a path is its number of edges up to \<open>2 ^ 53\<close>, and \<open>2 ^ 53\<close>
  beyond: up to there every natural number is a binary64 number, and \<open>2 ^ 53 + 1\<close> is
  rounded back to \<open>2 ^ 53\<close>.
\<close>

lemma fadd_count: "fadd (Fin (real (min n (2 ^ 53)))) (Fin 1) = Fin (real (min (Suc n) (2 ^ 53)))"
proof (cases "n < 2 ^ 53")
  case True
  then have "int (Suc n) \<le> 2 ^ 53"
    by (metis Suc_leI of_nat_le_iff of_nat_numeral of_nat_power)
  then have "round64 (of_int (int (Suc n))) = Fin (of_int (int (Suc n)))"
    by (intro round64_int) simp
  moreover have e: "of_int (int (Suc n)) = real n + 1" by simp
  ultimately have r: "round64 (real n + 1) = Fin (real n + 1)" by (simp only:)
  have m: "min n (2 ^ 53) = n" "min (Suc n) (2 ^ 53) = Suc n" using True by simp_all
  have "fadd (Fin (real n)) (Fin 1) = Fin (real n + 1)" unfolding fadd.simps(1) by (rule r)
  also have "real n + 1 = real (Suc n)" by simp
  finally show ?thesis unfolding m .
next
  case False
  then have m: "min n (2 ^ 53) = 2 ^ 53" "min (Suc n) (2 ^ 53) = 2 ^ 53" by simp_all
  have r: "real (2 ^ 53) = 2 ^ 53" by simp
  show ?thesis unfolding m r using round64_tie by simp
qed

lemma unit_path_cost:
  assumes u: "unit_weights g"
  shows "is_path g p \<Longrightarrow> path_cost g p = Fin (real (min (length p - 1) (2 ^ 53)))"
proof (induction p rule: rev_induct)
  case Nil
  then show ?case by simp
next
  case (snoc v p)
  show ?case
  proof (cases "p = []")
    case True
    then show ?thesis by simp
  next
    case False
    from snoc.prems(1) have path: "is_path g p" and e: "\<exists>w. edge g (last p) v w"
      using is_path_snoc_iff [OF False, of g v] by simp_all
    then have w: "weight g (last p) v = Fin 1"
      using u weight_edge unfolding unit_weights_def by metis
    have IH: "path_cost g p = Fin (real (min (length p - 1) (2 ^ 53)))" by (rule snoc.IH [OF path])
    have len: "length (p @ [v]) - 1 = Suc (length p - 1)" using False by (cases p) simp_all
    show ?thesis
      unfolding path_cost_snoc [OF False] IH w len by (rule fadd_count)
  qed
qed

lemma reachable_registered:
  assumes "graph_inv g"
  shows "reachable g s t \<Longrightarrow> t = s \<or> registered g t"
proof (induction rule: reachable.induct)
  case here
  show ?case by simp
next
  case (step u v w)
  show ?case using graph_inv_neighbor [OF assms edge_neighbor [OF step.hyps(2)]] by simp
qed

lemma bfs_loop_Nil:
  "bfs_loop sch g t \<lparr>visited_b = vs, queue = [], parent = pr, distance = ds\<rparr> =
     \<lparr>visited_b = vs, queue = [], parent = pr, distance = ds\<rparr>"
  by (subst bfs_loop.simps) simp

lemma bfs_loop_Cons:
  "bfs_loop sch g t \<lparr>visited_b = vs, queue = u # q, parent = pr, distance = ds\<rparr> =
     (if u = t then \<lparr>visited_b = vs, queue = q, parent = pr, distance = ds\<rparr>
      else bfs_loop sch g t (fold (bfs_visit u) (neighbors sch g u)
             \<lparr>visited_b = vs, queue = q, parent = pr, distance = ds\<rparr>))"
  by (subst bfs_loop.simps) simp

lemmas bfs_eval = graph_eval get_eval BFS_def bfs_loop_Nil bfs_loop_Cons
  bfs_visit_def neighbors_def walk_back_done walk_back_turn Let_def

lemma bfs_unreachable:
  assumes "\<not> reachable g s t"
  shows "BFS sch g s t = Some (- 1, [])"
proof -
  have st: "s \<noteq> t" using assms reachable.here [of g s] by auto
  let ?st0 = "\<lparr>visited_b = [s \<mapsto> True], queue = [s], parent = Map.empty, distance = [s \<mapsto> 0]\<rparr>"
  let ?I = "\<lambda>st. bfs_base g s t st \<and> bfs_head g st"
  have vis: "\<not> getb (visited_b st) t" if "bfs_base g s t st" for st
  proof
    assume "getb (visited_b st) t"
    then have "bfs_tree g s st t" using that unfolding bfs_base_def by blast
    then obtain p where "back_path (parent st) s t p" "is_path g (s # p)"
      unfolding bfs_tree_def by blast
    then have "reachable g s t" using is_path_reachable [of g s p] back_path_last [of "parent st" s t p] by simp
    then show False using assms by simp
  qed
  have "?I ?st0" using bfs_init [OF st] by simp
  then have "\<not> getb (visited_b (bfs_loop sch g t ?st0)) t"
  proof (induction rule: bfs_loop_rule)
    case (turn st u q)
    then show ?case using bfs_turn by blast
  next
    case (empty st)
    then show ?case using vis [of st] by blast
  next
    case (break st q)
    then have "\<not> getb (visited_b st) t" using vis [of st] by blast
    then show ?case by simp
  qed
  then show ?thesis using st by (simp add: BFS_def Let_def)
qed

lemma unit_toy: "unit_weights (AddEdge NewGraph 0 1 (Fin 1))"
  by (simp add: unit_weights_def edge_AddEdge)

lemma toy_unreachable: "\<not> reachable (AddEdge NewGraph 0 1 w) 1 0"
proof -
  have "v = 1" if "reachable (AddEdge NewGraph 0 1 w) 1 v" for v
    using that by (induction rule: reachable.induct) (simp_all add: edge_AddEdge)
  then show ?thesis by fastforce
qed

section \<open>Dijkstra: a target that was never inserted\<close>

text \<open>
  Only the source and registered nodes get an entry in \<open>dist\<close>. For a target that was
  never inserted \<open>dist[target]\<close> reads 0, and the reconstruction walks from the target to
  node 0, the zero value of \<open>prev\<close>, and on from there: it reaches the source if the
  source is 0 or node 0 is at a distance below \<open>+Inf\<close>, and never returns otherwise.
\<close>

lemma walk_back_stuck:
  assumes "s \<noteq> 0" and "geti prv 0 = 0"
  shows "walk_back prv s 0 path = None"
proof (rule ccontr)
  assume "walk_back prv s 0 path \<noteq> None"
  then obtain y where y: "walk_back prv s 0 path = Some y" by auto
  have "\<not> (prv = prv \<and> s = s \<and> (0::int) = 0)"
  proof (rule walk_back.raw_induct
      [where P = "\<lambda>prv' s' n path y. \<not> (prv' = prv \<and> s' = s \<and> n = 0)", OF _ y])
    fix wb prv' s' n path' y'
    assume IH: "\<And>a b c d y. wb a b c d = Some y \<Longrightarrow> \<not> (a = prv \<and> b = s \<and> c = 0)"
      and step: "(if n \<noteq> s' then wb prv' s' (geti prv' n) (n # path') else Some path') = Some y'"
    show "\<not> (prv' = prv \<and> s' = s \<and> n = 0)"
    proof
      assume "prv' = prv \<and> s' = s \<and> n = 0"
      with step assms have "wb prv s 0 (0 # path') = Some y'" by simp
      from IH [OF this] show False by simp
    qed
  qed
  then show False by simp
qed

lemma relax_dijkstra_keys:
  assumes "dist (relax_dijkstra u (v, w) st) n \<noteq> None"
  shows "dist st n \<noteq> None \<or> n = v"
  using assms by (cases "n = v") (auto simp: relax_dijkstra_def Let_def split: if_splits)

lemma fold_relax_dijkstra_keys:
  "dist (fold (relax_dijkstra u) es st) n \<noteq> None \<Longrightarrow> dist st n \<noteq> None \<or> n \<in> fst ` set es"
proof (induction es arbitrary: st)
  case Nil
  then show ?case by simp
next
  case (Cons e es)
  obtain v w where e: "e = (v, w)" by (cases e)
  from Cons.IH [of "relax_dijkstra u (v, w) st"] Cons.prems
  have "dist (relax_dijkstra u (v, w) st) n \<noteq> None \<or> n \<in> fst ` set es" by (simp add: e)
  then show ?case using relax_dijkstra_keys [of u v w st n] by (auto simp: e)
qed

lemma dijkstra_keys:
  assumes G: "graph_inv g"
    and d: "dist (dijkstra_loop sch g t (init_state ord g s (Fin 0))) n \<noteq> None"
  shows "registered g n \<or> n = s"
proof -
  let ?I = "\<lambda>st. \<forall>n. dist st n \<noteq> None \<longrightarrow> registered g n \<or> n = s"
  have "?I (init_state ord g s (Fin 0))"
    by (simp add: init_state_def init_dist_eq registered_iff)
  then have "?I (dijkstra_loop sch g t (init_state ord g s (Fin 0)))"
  proof (induction rule: dijkstra_loop_rule)
    case (turn st b st')
    from turn(2) show ?case
    proof (cases rule: dijkstra_body_cases [where sch = sch and g = g and t = t])
      case (skip it q)
      then show ?thesis using turn(1,3) by auto
    next
      case (break it q)
      then show ?thesis using turn(1,3) by auto
    next
      case (expand it q)
      let ?u = "node it"
      let ?es = "go_range (nbr_ord sch ?u) (row g ?u)"
      have st': "st' = fold (relax_dijkstra ?u) ?es (st\<lparr>visited := (visited st)(?u \<mapsto> True), pq := q\<rparr>)"
        using expand(4) turn(3) by simp
      show ?thesis
      proof (intro allI impI)
        fix n assume "dist st' n \<noteq> None"
        then have "dist (st\<lparr>visited := (visited st)(?u \<mapsto> True), pq := q\<rparr>) n \<noteq> None
                   \<or> n \<in> fst ` set ?es"
          unfolding st' by (rule fold_relax_dijkstra_keys)
        then have "dist st n \<noteq> None \<or> n \<in> fst ` set (row g ?u)"
          unfolding keys_go_range by simp
        then show "registered g n \<or> n = s"
        proof
          assume "dist st n \<noteq> None"
          then show ?thesis using turn(1) by blast
        next
          assume "n \<in> fst ` set (row g ?u)"
          then show ?thesis using graph_inv_neighbor [OF G] by blast
        qed
      qed
    qed
  qed
  then show ?thesis using d by blast
qed

lemma dijkstra_unregistered:
  assumes G: "graph_inv g" and N: "nonneg g" and t: "\<not> registered g t" "t \<noteq> s"
  shows "(s = 0 \<or> (\<exists>p. is_path g p \<and> hd p = s \<and> last p = 0 \<and> path_cost g p \<noteq> PInf)
          \<longrightarrow> (\<exists>q. Dijkstra sch g s t = Some (Fin 0, q))) \<and>
         (\<not> (s = 0 \<or> (\<exists>p. is_path g p \<and> hd p = s \<and> last p = 0 \<and> path_cost g p \<noteq> PInf))
          \<longrightarrow> Dijkstra sch g s t = None)"
proof -
  define st where "st = dijkstra_loop sch g t (init_state (nodes_ord sch) g s (Fin 0))"
  have A: "inv_A g s st" unfolding st_def by (rule inv_A_final)
  have dt: "dist st t = None"
  proof (rule ccontr)
    assume "dist st t \<noteq> None"
    then have "registered g t \<or> t = s" unfolding st_def by (rule dijkstra_keys [OF G])
    then show False using t by simp
  qed
  have pt: "prev st t = None"
  proof (rule ccontr)
    assume "prev st t \<noteq> None"
    from inv_A_prev [OF A this] show False using dt by simp
  qed
  have nv: "\<not> getb (visited st) t"
  proof
    assume "getb (visited st) t"
    from inv_A_visited [OF A this] show False using dt by simp
  qed
  have D: "Dijkstra sch g s t = (case walk_back (prev st) s 0 [t] of
             None \<Rightarrow> None | Some path \<Rightarrow> Some (Fin 0, s # path))"
  proof -
    have "getf (dist st) t = Fin 0" "geti (prev st) t = 0"
      using dt pt by (simp_all add: getf_def geti_def)
    then show ?thesis
      using walk_back_turn [OF t(2), of "prev st" "[]"]
      by (simp add: Dijkstra_def reconstruct_def st_def [symmetric] cong: option.case_cong)
  qed
  show ?thesis
  proof (cases "s = 0")
    case True
    have "walk_back (prev st) s 0 [t] = Some [t]" unfolding True by (rule walk_back_done)
    then show ?thesis unfolding D using True by simp
  next
    case s0: False
    show ?thesis
    proof (cases "\<exists>d. dist st 0 = Some d \<and> fless d PInf")
      case True
      then obtain d where d: "dist st 0 = Some d" "fless d PInf" by blast
      from inv_A_tree [OF A d] obtain q where q: "back_path (prev st) s 0 q" "is_path g (s # q)"
        "path_cost g (s # q) = d"
        unfolding tree_path_def by blast
      have w: "walk_back (prev st) s 0 [t] = Some (q @ [t])" by (rule back_path_walk [OF q(1)])
      have "last (s # q) = 0" by (rule back_path_last [OF q(1)])
      moreover have "path_cost g (s # q) \<noteq> PInf" using q(3) d(2) by auto
      ultimately have "\<exists>p. is_path g p \<and> hd p = s \<and> last p = 0 \<and> path_cost g p \<noteq> PInf"
        using q(2) by (intro exI [of _ "s # q"]) simp
      then show ?thesis unfolding D w by simp
    next
      case False
      have none: "path_cost g p = PInf" if p: "is_path g p" "hd p = s" "last p = 0" for p
      proof (cases "dist st 0")
        case None
        obtain rest where "p = s # rest" using p(1,2) by (cases p) auto
        then have "reachable g s 0" using is_path_reachable [of g s rest] p(1,3) by simp
        then have "registered g 0" using reachable_registered [OF G] s0 by auto
        then show ?thesis using inv_A_dom [OF A] None by blast
      next
        case (Some d)
        then have "d = PInf" using False inv_A_no_nan [OF A Some] by (simp add: not_less_PInf)
        moreover have "fle d (path_cost g p)"
          using dijkstra_bound [OF G N p, of sch t "nodes_ord sch" d] Some nv by (simp add: st_def)
        ultimately show ?thesis by simp
      qed
      have "prev st 0 = None"
      proof (rule ccontr)
        assume "prev st 0 \<noteq> None"
        from inv_A_prev [OF A this] show False using False by simp
      qed
      then have "walk_back (prev st) s 0 [t] = None"
        by (intro walk_back_stuck [OF s0]) (simp add: geti_def)
      then show ?thesis using s0 none by (auto simp: D)
    qed
  qed
qed

lemma dijkstra_unregistered_cases:
  assumes "graph_inv g" and "nonneg g" and "\<not> registered g t" and "t \<noteq> s"
  shows "(\<exists>q. Dijkstra sch g s t = Some (Fin 0, q)) \<or> Dijkstra sch g s t = None"
  using dijkstra_unregistered [OF assms, of sch]
  by (cases "s = 0 \<or> (\<exists>p. is_path g p \<and> hd p = s \<and> last p = 0 \<and> path_cost g p \<noteq> PInf)") auto

text \<open>
  Whatever the target, two calls under any two iteration orders return the same distance,
  or neither returns.
\<close>

lemma dijkstra_distance_indep:
  assumes G: "graph_inv g" and N: "nonneg g"
  shows "map_option fst (Dijkstra sch g s t) = map_option fst (Dijkstra sch' g s t)"
proof (cases "registered g t \<or> t = s")
  case True
  from dijkstra_same_distance [OF G N True, of sch sch'] show ?thesis by auto
next
  case False
  then have t: "\<not> registered g t" "t \<noteq> s" by simp_all
  show ?thesis
    using dijkstra_unregistered [OF G N t, of sch] dijkstra_unregistered [OF G N t, of sch']
    by (cases "s = 0 \<or> (\<exists>p. is_path g p \<and> hd p = s \<and> last p = 0 \<and> path_cost g p \<noteq> PInf)") auto
qed

section \<open>Sample graphs\<close>

text \<open>
  \<open>2 ^ 1023\<close> is a binary64 number whose double is not: the sum overflows. \<open>2 ^ 53 + 1\<close>
  is the first natural number that is not a binary64 number; it is rounded to \<open>2 ^ 53\<close>.
\<close>

lemma fadd_zero_big: "fadd (Fin 0) (Fin (2 ^ 1023)) = Fin (2 ^ 1023)"
  using round64_pow2 [of 1023] by simp

lemma fadd_big_big: "fadd (Fin (2 ^ 1023)) (Fin (2 ^ 1023)) = PInf"
  using round64_overflow [of "2 ^ 1023 + 2 ^ 1023"] by simp

lemma fadd_zero_neg_big: "fadd (Fin 0) (Fin (- (2 ^ 1023))) = Fin (- (2 ^ 1023))"
  using round64_pow2 [of 1023] round64_minus [of "2 ^ 1023"] by simp

lemma fadd_neg_big_big: "fadd (Fin (- (2 ^ 1023))) (Fin (- (2 ^ 1023))) = NInf"
  using round64_underflow [of "- (2 ^ 1023) + - (2 ^ 1023)"] by simp

lemma fadd_tie: "fadd (Fin (2 ^ 53)) (Fin 1) = Fin (2 ^ 53)"
  using round64_tie by simp

lemma fadd_even: "fadd (Fin (2 ^ 53)) (Fin 2) = Fin (2 ^ 53 + 2)"
  using round64_even by simp

lemma fadd_zero_pow53: "fadd (Fin 0) (Fin (2 ^ 53)) = Fin (2 ^ 53)"
  using round64_pow2 [of 53] by simp

lemmas big_eval = fadd_zero_big fadd_big_big fadd_zero_neg_big fadd_neg_big_big fadd_tie fadd_even

section \<open>Claims\<close>

text \<open>
  C1, at a failing input. The graph holds the single edge from 0 to 0 of weight 5; node 0
  is reachable from itself and the weight is non-negative. Whatever the iteration orders,
  \<open>Dijkstra(0, 0)\<close> returns the distance 0 and \<open>BellmanFord(0)\<close> has 0 at node 0, but
  \<open>FloydWarshall()[0][0]\<close> is 5: the loop that sets the edge weights overwrites the 0 that
  the initialisation put on the diagonal, and no shorter cycle brings it back.
\<close>

theorem floyd_warshall_self_loop_disagrees:
  "Dijkstra sch (AddEdge NewGraph 0 0 (Fin 5)) 0 0 = Some (Fin 0, [0]) \<and>
   getf (fst (BellmanFord schs (AddEdge NewGraph 0 0 (Fin 5)) 0)) 0 = Fin 0 \<and>
   (case FloydWarshall sch' (AddEdge NewGraph 0 0 (Fin 5)) of
      Inl e \<Rightarrow> None | Inr d \<Rightarrow> Some (get2 d 0 0)) = Some (Fin 5)"
proof (intro conjI)
  show "Dijkstra sch (AddEdge NewGraph 0 0 (Fin 5)) 0 0 = Some (Fin 0, [0])"
    by (simp add: dijkstra_eval)
  show "getf (fst (BellmanFord schs (AddEdge NewGraph 0 0 (Fin 5)) 0)) 0 = Fin 0"
    by (simp add: BellmanFord_def go_len_def bf_passes_def init_dist_def graph_eval get_eval Let_def)
  show "(case FloydWarshall sch' (AddEdge NewGraph 0 0 (Fin 5)) of
           Inl e \<Rightarrow> None | Inr d \<Rightarrow> Some (get2 d 0 0)) = Some (Fin 5)"
    by (simp add: FloydWarshall_def fw_init_def fw_edges_def fw_main_def fw_step_def set2_def
        get2_def graph_eval get_eval float_eval)
qed

text \<open>
  C3, at a failing input. In the graph with the single edge from 0 to 1, node 5 was
  never inserted. \<open>Dijkstra(0, 5)\<close> reads \<open>dist[5]\<close>, which is the zero value 0 and not
  the infinite sentinel, and then walks \<open>prev\<close> from 5, whose zero value is the source 0:
  the call returns the distance 0 and the path \<open>[0, 5]\<close>, whatever the iteration orders.
\<close>

theorem dijkstra_absent_target_returns_zero:
  "Dijkstra sch (AddEdge NewGraph 0 1 (Fin 1)) 0 5 = Some (Fin 0, [0, 5])"
  by (simp add: dijkstra_eval)

text \<open>
  With a source other than 0 the same walk never reaches the source: from the absent
  target it steps to node 0 and stays there, and the call does not return.
\<close>

lemma dijkstra_absent_target_diverges: "Dijkstra sch NewGraph 1 2 = None"
proof -
  have loop: "dijkstra_loop sch NewGraph 2 (init_state (nodes_ord sch) NewGraph 1 (Fin 0))
                = \<lparr>dist = [1 \<mapsto> Fin 0], prev = Map.empty, visited = [1 \<mapsto> True], pq = []\<rparr>"
    by (simp add: heap_eval graph_eval get_eval init_state_def init_dist_eq dijkstra_body_def
        relax_dijkstra_def dijkstra_loop_done dijkstra_loop_turn Let_def fun_eq_iff)
  have "walk_back Map.empty 1 2 [] = walk_back Map.empty 1 0 [2]"
    by (subst walk_back_turn) (simp_all add: geti_def)
  also have "\<dots> = None"
    by (rule walk_back_stuck) (simp_all add: geti_def)
  finally show ?thesis
    unfolding Dijkstra_def loop reconstruct_def by (simp add: getf_def)
qed

text \<open>
  C6, at a failing input. Both graphs hold the single edge from 0 to 1 of weight 0. They
  are equal, so no node and no edge is present in exactly one of them; but an edge of
  weight 0 is read as absent (\<open>g2.adjacency[from][to] == 0\<close>) and is counted once in each
  direction of the comparison: the result is 2.
\<close>

theorem graph_edit_distance_zero_weight_edge:
  "GraphEditDistance s1 s2 (AddEdge NewGraph 0 1 (Fin 0)) (AddEdge NewGraph 0 1 (Fin 0)) = Fin 2"
  by (simp add: GraphEditDistance_def count_nodes_def count_edges_def graph_eval getb_def float_eval)

text \<open>
  C5. For every graph and every node \<open>s\<close> (registered or not), \<open>Dijkstra(s, s)\<close> returns
  the distance 0 and the path \<open>[s]\<close>; and for every registered target that is not
  reachable from the source, \<open>Dijkstra\<close> returns the infinite sentinel and the empty
  path. Both hold for all weights and all iteration orders.
\<close>

theorem dijkstra_self_and_unreachable:
  "Dijkstra sch g s s = Some (Fin 0, [s]) \<and>
   (registered g t \<and> \<not> reachable g s t \<longrightarrow> Dijkstra sch g s t = Some (PInf, []))"
  using dijkstra_self dijkstra_unreachable by blast

theorem dijkstra_self_and_unreachable_witness:
  "registered (AddEdge NewGraph 0 1 (Fin 1)) 0 \<and> \<not> reachable (AddEdge NewGraph 0 1 (Fin 1)) 1 0 \<and>
   Dijkstra sched0 (AddEdge NewGraph 0 1 (Fin 1)) 1 0 = Some (PInf, []) \<and>
   Dijkstra sched0 (AddEdge NewGraph 0 1 (Fin 1)) 1 1 = Some (Fin 0, [1])"
proof -
  have r: "registered (AddEdge NewGraph 0 1 (Fin 1)) 0"
    by (simp add: registered_AddEdge)
  have "v = 1" if "reachable (AddEdge NewGraph 0 1 (Fin 1)) 1 v" for v
    using that by (induction rule: reachable.induct) (simp_all add: edge_AddEdge)
  then have n: "\<not> reachable (AddEdge NewGraph 0 1 (Fin 1)) 1 0" by fastforce
  from dijkstra_self_and_unreachable [of sched0 "AddEdge NewGraph 0 1 (Fin 1)" 1 0] r n
  show ?thesis by blast
qed

text \<open>
  C10. As stated the claim fails in two ways. A path whose \<open>float64\<close> sum overflows leaves
  the target at \<open>+Inf\<close>, which the code reads as "no path": for a reachable target it
  then returns \<open>+Inf\<close> and the empty path. And the returned distance is the \<open>float64\<close>
  sum of the weights along the path, added from the source on, which need not be their
  exact sum. The amended claim: for every graph built by the store without negative
  weights, and every target to which some path from the source has a cost other than
  \<open>+Inf\<close>, \<open>Dijkstra\<close> returns, and what it returns is a distance below \<open>+Inf\<close> and a path
  that starts at the source, ends at the target, follows edges of the graph, and whose
  cost (the \<open>float64\<close> sum of its weights, added from the source on) is the returned
  distance. This holds for all iteration orders.
\<close>

theorem dijkstra_path_valid:
  assumes "graph_inv g" and "nonneg g"
    and "is_path g p" and "hd p = s" and "last p = t" and "path_cost g p \<noteq> PInf"
  shows "\<exists>d q. Dijkstra sch g s t = Some (d, q) \<and> fless d PInf \<and>
               hd q = s \<and> last q = t \<and> is_path g q \<and> path_cost g q = d"
proof -
  obtain rest where rest: "p = s # rest" using assms(3,4) by (cases p) auto
  have "reachable g s (last (s # rest))" by (rule is_path_reachable) (use assms(3) rest in simp)
  then have "t = s \<or> registered g t"
    using reachable_registered [OF assms(1)] assms(5) rest by simp
  then have t: "registered g t \<or> t = s" by blast
  from dijkstra_result [OF assms(1,2) t, of sch] obtain d q where r:
    "Dijkstra sch g s t = Some (d, q)"
    "\<And>p. is_path g p \<and> hd p = s \<and> last p = t \<Longrightarrow> fle d (path_cost g p)"
    "d = PInf \<and> q = [] \<or> fless d PInf \<and> is_path g q \<and> hd q = s \<and> last q = t \<and> path_cost g q = d"
    by blast
  have "fle d (path_cost g p)" using r(2) assms(3-5) by blast
  then have "d \<noteq> PInf" using assms(6) by auto
  then show ?thesis using r(1,3) by blast
qed

theorem dijkstra_path_valid_witness:
  "graph_inv (AddEdge (AddEdge (AddEdge NewGraph 0 1 (Fin 1)) 1 2 (Fin 2)) 0 2 (Fin 5)) \<and>
   nonneg (AddEdge (AddEdge (AddEdge NewGraph 0 1 (Fin 1)) 1 2 (Fin 2)) 0 2 (Fin 5)) \<and>
   is_path (AddEdge (AddEdge (AddEdge NewGraph 0 1 (Fin 1)) 1 2 (Fin 2)) 0 2 (Fin 5)) [0, 2] \<and>
   path_cost (AddEdge (AddEdge (AddEdge NewGraph 0 1 (Fin 1)) 1 2 (Fin 2)) 0 2 (Fin 5)) [0, 2] = Fin 5 \<and>
   Dijkstra sched0 (AddEdge (AddEdge (AddEdge NewGraph 0 1 (Fin 1)) 1 2 (Fin 2)) 0 2 (Fin 5)) 0 2
     = Some (Fin 3, [0, 1, 2]) \<and>
   (\<exists>d q. Dijkstra sched0 (AddEdge (AddEdge (AddEdge NewGraph 0 1 (Fin 1)) 1 2 (Fin 2)) 0 2 (Fin 5)) 0 2
            = Some (d, q) \<and> fless d PInf \<and> hd q = 0 \<and> last q = 2 \<and>
          is_path (AddEdge (AddEdge (AddEdge NewGraph 0 1 (Fin 1)) 1 2 (Fin 2)) 0 2 (Fin 5)) q \<and>
          path_cost (AddEdge (AddEdge (AddEdge NewGraph 0 1 (Fin 1)) 1 2 (Fin 2)) 0 2 (Fin 5)) q = d)"
proof -
  let ?g = "AddEdge (AddEdge (AddEdge NewGraph 0 1 (Fin 1)) 1 2 (Fin 2)) 0 2 (Fin 5)"
  have inv: "graph_inv ?g"
    by (intro graph_inv_AddEdge graph_inv_NewGraph)
  have n: "nonneg ?g"
    by (auto simp: nonneg_def edge_AddEdge split: if_splits)
  have e: "edge ?g 0 2 (Fin 5)" by (simp add: edge_AddEdge)
  then have p: "is_path ?g [0, 2]" by auto
  have c: "path_cost ?g [0, 2] = Fin 5"
    using weight_edge [OF e] by (simp add: path_cost_def float_eval)
  have d: "Dijkstra sched0 ?g 0 2 = Some (Fin 3, [0, 1, 2])"
    by (simp add: dijkstra_eval sched0_def)
  from dijkstra_path_valid [OF inv n p, of 0 2 sched0] c inv n p d show ?thesis by simp
qed

text \<open>
  The two failures. With the edges from 0 to 1 and from 1 to 2 both of weight
  \<open>2 ^ 1023\<close>, node 2 is reachable from 0 and both weights are finite and positive, but
  their sum overflows and \<open>Dijkstra(0, 2)\<close> returns \<open>+Inf\<close> and the empty path. With the
  weights \<open>2 ^ 53\<close> and 1 the returned distance is \<open>2 ^ 53\<close>, and the exact sum of the
  weights of the returned path is \<open>2 ^ 53 + 1\<close>.
\<close>

theorem dijkstra_overflow_and_rounding:
  "nonneg (AddEdge (AddEdge NewGraph 0 1 (Fin (2 ^ 1023))) 1 2 (Fin (2 ^ 1023))) \<and>
   reachable (AddEdge (AddEdge NewGraph 0 1 (Fin (2 ^ 1023))) 1 2 (Fin (2 ^ 1023))) 0 2 \<and>
   Dijkstra sched0 (AddEdge (AddEdge NewGraph 0 1 (Fin (2 ^ 1023))) 1 2 (Fin (2 ^ 1023))) 0 2
     = Some (PInf, []) \<and>
   Dijkstra sched0 (AddEdge (AddEdge NewGraph 0 1 (Fin (2 ^ 53))) 1 2 (Fin 1)) 0 2
     = Some (Fin (2 ^ 53), [0, 1, 2])"
proof (intro conjI)
  let ?g = "AddEdge (AddEdge NewGraph 0 1 (Fin (2 ^ 1023))) 1 2 (Fin (2 ^ 1023))"
  show "nonneg ?g"
    by (auto simp: nonneg_def edge_AddEdge split: if_splits)
  have "edge ?g 0 1 (Fin (2 ^ 1023))" "edge ?g 1 2 (Fin (2 ^ 1023))" by (simp_all add: edge_AddEdge)
  then show "reachable ?g 0 2"
    using reachable.step [OF reachable.step [OF reachable.here]] by blast
  show "Dijkstra sched0 ?g 0 2 = Some (PInf, [])"
    by (simp add: dijkstra_eval sched0_def big_eval del: power_numeral fadd.simps(1))
  show "Dijkstra sched0 (AddEdge (AddEdge NewGraph 0 1 (Fin (2 ^ 53))) 1 2 (Fin 1)) 0 2
          = Some (Fin (2 ^ 53), [0, 1, 2])"
    by (simp add: dijkstra_eval sched0_def big_eval fadd_zero_pow53 del: power_numeral fadd.simps(1))
qed

text \<open>
  C8. As stated the claim fails: for a target that is not reachable the two sentinels
  differ, \<open>BFS\<close> answers \<open>-1\<close> and \<open>Dijkstra\<close> never does. The amended claim, for every
  graph built by the store in which every weight is 1, every pair \<open>(s, t)\<close> and any
  iteration orders of the two calls: if \<open>t\<close> is reachable from \<open>s\<close>, both calls return, the
  hop count \<open>h\<close> of \<open>BFS\<close> is not negative, and the distance of \<open>Dijkstra\<close> is the number
  \<open>h\<close> when \<open>h\<close> is at most \<open>2 ^ 53\<close> and \<open>2 ^ 53\<close> beyond (a \<open>float64\<close> that has reached
  \<open>2 ^ 53\<close> is not changed by adding 1); if \<open>t\<close> is not reachable from \<open>s\<close>, \<open>BFS\<close> returns
  \<open>-1\<close> and no path, and \<open>Dijkstra\<close> does not return \<open>-1\<close>: for a registered target it
  returns \<open>+Inf\<close> and the empty path.
\<close>

theorem bfs_hops_equal_dijkstra_distance:
  assumes "graph_inv g" and "unit_weights g"
  shows "(reachable g s t \<longrightarrow>
            (\<exists>h p q. BFS sch g s t = Some (h, p) \<and> 0 \<le> h \<and>
                     Dijkstra sch' g s t = Some (Fin (real_of_int (min h (2 ^ 53))), q))) \<and>
         (\<not> reachable g s t \<longrightarrow>
            BFS sch g s t = Some (- 1, []) \<and>
            (registered g t \<longrightarrow> Dijkstra sch' g s t = Some (PInf, [])) \<and>
            (\<forall>q. Dijkstra sch' g s t \<noteq> Some (Fin (- 1), q)))"
proof (intro conjI impI)
  assume r: "reachable g s t"
  show "\<exists>h p q. BFS sch g s t = Some (h, p) \<and> 0 \<le> h \<and>
                Dijkstra sch' g s t = Some (Fin (real_of_int (min h (2 ^ 53))), q)"
  proof (cases "s = t")
    case True
    have "BFS sch g s s = Some (0, [s])" by (simp add: BFS_def)
    moreover have "Dijkstra sch' g s s = Some (Fin 0, [s])" by (rule dijkstra_self)
    ultimately show ?thesis unfolding True [symmetric] by simp
  next
    case False
    note N = unit_nonneg [OF assms(2)]
    from bfs_correct [OF False r, of sch] obtain p where p:
      "BFS sch g s t = Some (int (length p) - 1, p)" "is_path g p" "hd p = s" "last p = t"
      "\<And>p'. is_path g p' \<and> hd p' = s \<and> last p' = t \<Longrightarrow> length p \<le> length p'"
      by blast
    have t: "registered g t \<or> t = s" using reachable_registered [OF assms(1) r] by blast
    from dijkstra_result [OF assms(1) N t, of sch'] obtain d q where d:
      "Dijkstra sch' g s t = Some (d, q)"
      "\<And>p. is_path g p \<and> hd p = s \<and> last p = t \<Longrightarrow> fle d (path_cost g p)"
      "d = PInf \<and> q = [] \<or> fless d PInf \<and> is_path g q \<and> hd q = s \<and> last q = t \<and> path_cost g q = d"
      by blast
    have pne: "p \<noteq> []" using p(2) by auto
    have cp: "path_cost g p = Fin (real (min (length p - 1) (2 ^ 53)))"
      by (rule unit_path_cost [OF assms(2) p(2)])
    have up: "fle d (path_cost g p)" using d(2) p(2-4) by blast
    then have "d \<noteq> PInf" unfolding cp by auto
    then have q: "is_path g q" "hd q = s" "last q = t" "path_cost g q = d" using d(3) by auto
    have cq: "d = Fin (real (min (length q - 1) (2 ^ 53)))"
      using unit_path_cost [OF assms(2) q(1)] q(4) by simp
    have "length p \<le> length q" using p(5) q(1-3) by blast
    then have "min (length p - 1) (2 ^ 53) \<le> min (length q - 1) (2 ^ 53)" by simp
    moreover have "real (min (length q - 1) (2 ^ 53)) \<le> real (min (length p - 1) (2 ^ 53))"
      using up unfolding cp cq by (simp add: fle_Fin)
    then have "min (length q - 1) (2 ^ 53) \<le> min (length p - 1) (2 ^ 53)"
      by (simp only: of_nat_le_iff)
    ultimately have "min (length q - 1) (2 ^ 53) = min (length p - 1) (2 ^ 53)"
      by (rule order.antisym [rotated])
    then have dp: "d = Fin (real (min (length p - 1) (2 ^ 53)))" using cq by simp
    have h: "int (length p) - 1 = int (length p - 1)" using pne by (cases p) simp_all
    have "real_of_int (min (int (length p - 1)) (2 ^ 53)) = real (min (length p - 1) (2 ^ 53))"
      by (simp add: min_def)
    then have "Dijkstra sch' g s t = Some (Fin (real_of_int (min (int (length p) - 1) (2 ^ 53))), q)"
      unfolding h using d(1) dp by simp
    moreover have "0 \<le> int (length p) - 1" unfolding h by simp
    ultimately show ?thesis using p(1) by blast
  qed
next
  assume "\<not> reachable g s t"
  then show "BFS sch g s t = Some (- 1, [])" by (rule bfs_unreachable)
next
  assume "\<not> reachable g s t" and "registered g t"
  then show "Dijkstra sch' g s t = Some (PInf, [])" using dijkstra_unreachable by blast
next
  assume n: "\<not> reachable g s t"
  then have ts: "t \<noteq> s" using reachable.here [of g s] by auto
  show "\<forall>q. Dijkstra sch' g s t \<noteq> Some (Fin (- 1), q)"
  proof (cases "registered g t")
    case True
    then have "Dijkstra sch' g s t = Some (PInf, [])" using n dijkstra_unreachable by blast
    then show ?thesis by simp
  next
    case False
    from dijkstra_unregistered_cases [OF assms(1) unit_nonneg [OF assms(2)] False ts, of sch']
    show ?thesis by auto
  qed
qed

theorem bfs_hops_equal_dijkstra_distance_witness:
  "graph_inv (AddEdge (AddEdge NewGraph 0 1 (Fin 1)) 1 2 (Fin 1)) \<and>
   unit_weights (AddEdge (AddEdge NewGraph 0 1 (Fin 1)) 1 2 (Fin 1)) \<and>
   reachable (AddEdge (AddEdge NewGraph 0 1 (Fin 1)) 1 2 (Fin 1)) 0 2 \<and>
   \<not> reachable (AddEdge (AddEdge NewGraph 0 1 (Fin 1)) 1 2 (Fin 1)) 2 0 \<and>
   registered (AddEdge (AddEdge NewGraph 0 1 (Fin 1)) 1 2 (Fin 1)) 0 \<and>
   BFS sched0 (AddEdge (AddEdge NewGraph 0 1 (Fin 1)) 1 2 (Fin 1)) 0 2 = Some (2, [0, 1, 2]) \<and>
   Dijkstra sched1 (AddEdge (AddEdge NewGraph 0 1 (Fin 1)) 1 2 (Fin 1)) 0 2 = Some (Fin 2, [0, 1, 2]) \<and>
   BFS sched0 (AddEdge (AddEdge NewGraph 0 1 (Fin 1)) 1 2 (Fin 1)) 2 0 = Some (- 1, []) \<and>
   Dijkstra sched1 (AddEdge (AddEdge NewGraph 0 1 (Fin 1)) 1 2 (Fin 1)) 2 0 = Some (PInf, [])"
proof -
  let ?g = "AddEdge (AddEdge NewGraph 0 1 (Fin 1)) 1 2 (Fin 1)"
  have inv: "graph_inv ?g"
    by (intro graph_inv_AddEdge graph_inv_NewGraph)
  have u: "unit_weights ?g"
    by (auto simp: unit_weights_def edge_AddEdge split: if_splits)
  have "edge ?g 0 1 (Fin 1)" "edge ?g 1 2 (Fin 1)" by (simp_all add: edge_AddEdge)
  then have r: "reachable ?g 0 2"
    using reachable.step [OF reachable.step [OF reachable.here]] by blast
  have "v = 2" if "reachable ?g 2 v" for v
    using that by (induction rule: reachable.induct) (simp_all add: edge_AddEdge)
  then have n: "\<not> reachable ?g 2 0" by fastforce
  have g: "registered ?g 0" by (simp add: registered_AddEdge)
  have b: "BFS sched0 ?g 0 2 = Some (2, [0, 1, 2])"
    by (simp add: bfs_eval sched0_def)
  from bfs_hops_equal_dijkstra_distance [OF inv u, of 0 2 sched0 sched1] r b
  have d: "Dijkstra sched1 ?g 0 2 = Some (Fin 2, [0, 1, 2])"
    by (simp add: dijkstra_eval sched1_def)
  from bfs_hops_equal_dijkstra_distance [OF inv u, of 2 0 sched0 sched1] n g
  have "BFS sched0 ?g 2 0 = Some (- 1, []) \<and> Dijkstra sched1 ?g 2 0 = Some (PInf, [])" by blast
  then show ?thesis using inv u r n g b d by simp
qed

text \<open>
  The counterexample: in the graph with the single edge from 0 to 1, of weight 1, node 0
  is registered and not reachable from node 1. \<open>BFS(1, 0)\<close> returns \<open>-1\<close>, \<open>Dijkstra(1, 0)\<close>
  returns \<open>+Inf\<close>.
\<close>

theorem bfs_dijkstra_sentinels_differ:
  "unit_weights (AddEdge NewGraph 0 1 (Fin 1)) \<and>
   BFS sched0 (AddEdge NewGraph 0 1 (Fin 1)) 1 0 = Some (- 1, []) \<and>
   Dijkstra sched0 (AddEdge NewGraph 0 1 (Fin 1)) 1 0 = Some (PInf, []) \<and>
   PInf \<noteq> Fin (real_of_int (- 1))"
proof -
  have "BFS sched0 (AddEdge NewGraph 0 1 (Fin 1)) 1 0 = Some (- 1, [])"
    by (simp add: bfs_eval sched0_def)
  moreover have "registered (AddEdge NewGraph 0 1 (Fin 1)) 0"
    by (simp add: registered_AddEdge)
  then have "Dijkstra sched0 (AddEdge NewGraph 0 1 (Fin 1)) 1 0 = Some (PInf, [])"
    using toy_unreachable by (rule dijkstra_unreachable)
  ultimately show ?thesis using unit_toy by simp
qed

end
